theory Spec2Isabelle
  imports Main "HOL-Library.Word"
begin

unbundle bit_operations_syntax

section \<open>numeric.hpp\<close>

text \<open>
  \<^verbatim>\<open>npot32\<close>: decrement, smear the highest set bit to the right, increment.  All
  arithmetic is on \<^verbatim>\<open>uint32_t\<close>, so both the decrement of 0 and the final increment
  of \<^verbatim>\<open>0xFFFFFFFF\<close> wrap.
\<close>

definition npot32 :: "32 word \<Rightarrow> 32 word" where
  "npot32 value0 =
     (let value1 = value0 - 1;
          value2 = value1 OR drop_bit 1 value1;
          value3 = value2 OR drop_bit 2 value2;
          value4 = value3 OR drop_bit 4 value3;
          value5 = value4 OR drop_bit 8 value4;
          value6 = value5 OR drop_bit 16 value5
      in value6 + 1)"

text \<open>
  \<open>smeared d v x\<close>: bit \<open>i\<close> of \<open>x\<close> is set exactly when one of the \<open>d\<close> bits of \<open>v\<close>
  from \<open>i\<close> upwards is; it is what the shifts of \<^verbatim>\<open>npot32\<close> establish step by step.
\<close>

definition smeared :: "nat \<Rightarrow> 32 word \<Rightarrow> 32 word \<Rightarrow> bool" where
  "smeared d v x \<longleftrightarrow> (\<forall>i. bit x i \<longleftrightarrow> (\<exists>e<d. bit v (i + e)))"

section \<open>hop\_base.hpp\<close>

subsection \<open>Traits\<close>

text \<open>
  \<^verbatim>\<open>hop_traits<HopSize>\<close> is specialised for 8, 16 and 32 only; the hop word type is
  the unsigned integer of \<^verbatim>\<open>HopSize\<close> bits.  The model takes the hop word type
  \<open>'h word\<close> as the parameter, \<^verbatim>\<open>HopSize\<close> being its width.
\<close>

definition HopSize :: "'h::len itself \<Rightarrow> nat" where
  "HopSize _ = LENGTH('h)"

definition valid_hop_size :: "'h::len itself \<Rightarrow> bool" where
  "valid_hop_size _ \<longleftrightarrow> LENGTH('h) = 8 \<or> LENGTH('h) = 16 \<or> LENGTH('h) = 32"

definition hop_bucket :: "'h::len itself \<Rightarrow> nat" where
  "hop_bucket _ = LENGTH('h) - 1"

definition probe_max :: "'h::len itself \<Rightarrow> nat" where
  "probe_max _ = LENGTH('h) * 16"

subsection \<open>State of \<^verbatim>\<open>HopscotchBase\<close>\<close>

text \<open>
  The four data members of the base class.  \<^verbatim>\<open>Set\<close> adds nothing;
  \<^verbatim>\<open>Dict\<close> extends the record by the values buffer.  The buffers are lists;
  the size and the capacity are \<^verbatim>\<open>uint32_t\<close>.  A member \<^verbatim>\<open>keys_\<close> of the source is
  the field \<open>keys_m\<close> here (an identifier cannot end in an underscore), and so on.
\<close>

record (overloaded) ('k, 'h) hop_base =
  keys_m :: "'k list"
  hops_m :: "'h word list"
  size_m :: "32 word"
  capacity_m :: "32 word"

record (overloaded) ('k, 'v, 'h) dict = "('k, 'h) hop_base" +
  values_m :: "'v list"

text \<open>The end index \<^verbatim>\<open>capacity_ + traits::hop_bucket\<close>, computed in \<^verbatim>\<open>uint32_t\<close>.\<close>

definition end_index :: "('k, 'h::len, 'z) hop_base_scheme \<Rightarrow> nat" where
  "end_index s = unat (capacity_m s + of_nat (hop_bucket TYPE('h)))"

text \<open>\<^verbatim>\<open>hops_[i] & 1\<close>: the occupancy bit of slot \<open>i\<close>.\<close>

definition occupied :: "'h::len word list \<Rightarrow> nat \<Rightarrow> bool" where
  "occupied hs i \<longleftrightarrow> (hs ! i) AND 1 \<noteq> 0"

text \<open>
  \<^verbatim>\<open>get_bucket_index\<close>: the hash is a \<^verbatim>\<open>size_t\<close> (64 bits); \<^verbatim>\<open>capacity_ - 1\<close> is
  computed in \<^verbatim>\<open>uint32_t\<close> (it wraps to \<^verbatim>\<open>0xFFFFFFFF\<close> for capacity 0), widened for
  the \<^verbatim>\<open>&\<close>, and the result converted back to \<^verbatim>\<open>size_type\<close>.
\<close>

definition get_bucket_index ::
  "('k \<Rightarrow> 64 word) \<Rightarrow> ('k, 'h::len, 'z) hop_base_scheme \<Rightarrow> 'k \<Rightarrow> nat" where
  "get_bucket_index H s k = unat (ucast (H k AND ucast (capacity_m s - 1)) :: 32 word)"

text \<open>
  The loop of \<^verbatim>\<open>find_internal\<close>: \<open>hs\<close> is the local \<^verbatim>\<open>hops\<close> (the bitmap word
  already shifted right by one), \<open>e\<close> the value returned when the word is exhausted.
\<close>

function find_loop :: "'k list \<Rightarrow> 'h::len word \<Rightarrow> nat \<Rightarrow> 'k \<Rightarrow> nat \<Rightarrow> nat" where
  "find_loop ks hs index k e =
     (if hs \<noteq> 0
      then (if hs AND 1 \<noteq> 0 \<and> ks ! index = k then index
            else find_loop ks (drop_bit 1 hs) (index + 1) k e)
      else e)"
  by pat_completeness auto
termination
proof (relation "measure (\<lambda>(ks, hs, index, k, e). unat hs)", goal_cases)
  case 1
  show ?case by simp
next
  case (2 ks hs index k e)
  then have "0 < unat hs"
    by (simp add: unat_gt_0)
  then have "unat hs div 2 < unat hs"
    by simp
  moreover have "unat (drop_bit 1 hs) = unat hs div 2"
    by (simp only: unat_drop_bit_eq) (simp add: drop_bit_eq_div)
  ultimately show ?case
    by simp
qed

declare find_loop.simps [simp del]

definition find_internal ::
  "('k, 'h::len, 'z) hop_base_scheme \<Rightarrow> nat \<Rightarrow> 'k \<Rightarrow> nat" where
  "find_internal s index k =
     find_loop (keys_m s) (drop_bit 1 (hops_m s ! index)) index k (end_index s)"

definition has :: "('k \<Rightarrow> 64 word) \<Rightarrow> ('k, 'h::len, 'z) hop_base_scheme \<Rightarrow> 'k \<Rightarrow> bool" where
  "has H s key =
     (let bucket_index = get_bucket_index H s key
      in find_internal s bucket_index key \<noteq> end_index s)"

definition find_index :: "('k \<Rightarrow> 64 word) \<Rightarrow> ('k, 'h::len, 'z) hop_base_scheme \<Rightarrow> 'k \<Rightarrow> nat" where
  "find_index H s key = find_internal s (get_bucket_index H s key) key"

definition empty :: "('k, 'h::len, 'z) hop_base_scheme \<Rightarrow> bool" where
  "empty s \<longleftrightarrow> size_m s = 0"

text \<open>
  The cursor of \<^verbatim>\<open>HopscotchBase::iterator\<close>: \<^verbatim>\<open>next()\<close> advances to the first slot at
  or after \<open>index\<close> whose occupancy bit is set, and stops at the end index.
\<close>

function iter_next :: "('k, 'h::len, 'z) hop_base_scheme \<Rightarrow> nat \<Rightarrow> nat" where
  "iter_next s index =
     (if index < end_index s \<and> \<not> occupied (hops_m s) index
      then iter_next s (index + 1) else index)"
  by pat_completeness auto
termination
  by (relation "measure (\<lambda>(s, index). end_index s - index)") auto

declare iter_next.simps [simp del]

section \<open>The insertion algorithm shared by \<^verbatim>\<open>Set::insert\<close> and \<^verbatim>\<open>Dict::insert\<close>\<close>

text \<open>
  The linear probe \<^verbatim>\<open>while((idx < probe_end) & (hops_[idx] & 1)) ++idx\<close>.  The source
  joins the two tests with the bitwise \<^verbatim>\<open>&\<close>, so it reads \<^verbatim>\<open>hops_[idx]\<close> also when
  \<^verbatim>\<open>idx = probe_end\<close>; the value read is then discarded by the \<^verbatim>\<open>&\<close> with 0, and the
  model does not read it.
\<close>

function probe_loop :: "'h::len word list \<Rightarrow> nat \<Rightarrow> nat \<Rightarrow> nat" where
  "probe_loop hs probe_end idx =
     (if idx < probe_end \<and> occupied hs idx then probe_loop hs probe_end (idx + 1) else idx)"
  by pat_completeness auto
termination
  by (relation "measure (\<lambda>(hs, probe_end, idx). probe_end - idx)") auto

declare probe_loop.simps [simp del]

text \<open>
  The inner loop of the displacement search.  \<^verbatim>\<open>hop_mask\<close> is a \<^verbatim>\<open>uint32_t\<close>; the hop
  word is widened to 32 bits for the \<^verbatim>\<open>&\<close>.
\<close>

function cursor_loop :: "'h::len word list \<Rightarrow> nat \<Rightarrow> nat \<Rightarrow> 32 word \<Rightarrow> nat" where
  "cursor_loop hs offset cursor hop_mask =
     (if cursor \<le> offset \<and> \<not> ((ucast (hs ! cursor) :: 32 word) AND hop_mask \<noteq> 0)
      then cursor_loop hs offset (cursor + 1) (drop_bit 1 hop_mask)
      else cursor)"
  by pat_completeness auto
termination
  by (relation "measure (\<lambda>(hs, offset, cursor, hop_mask). Suc offset - cursor)") auto

declare cursor_loop.simps [simp del]

text \<open>
  The \<^verbatim>\<open>do ... while(offset < idx && cursor > offset)\<close> loop.  The source starts
  \<^verbatim>\<open>offset\<close> at \<^verbatim>\<open>look_first - 1\<close> and increments it first thing in the body; the
  argument \<open>offset\<close> here is the value after that increment, so the first call passes
  \<^verbatim>\<open>look_first\<close>.  The result is the pair of \<^verbatim>\<open>offset\<close> and \<^verbatim>\<open>cursor\<close> on exit.
\<close>

function offset_loop :: "'h::len word list \<Rightarrow> nat \<Rightarrow> nat \<Rightarrow> nat \<Rightarrow> nat \<times> nat" where
  "offset_loop hs look_first idx offset =
     (let cursor = cursor_loop hs offset look_first (push_bit (offset - look_first + 1) 1)
      in if offset < idx \<and> cursor > offset
         then offset_loop hs look_first idx (offset + 1)
         else (offset, cursor))"
  by pat_completeness auto
termination
  by (relation "measure (\<lambda>(hs, look_first, idx, offset). idx - offset)") auto

declare offset_loop.simps [simp del]

text \<open>
  One pass through the body of \<^verbatim>\<open>insert\<close> ends in one of three ways: the key is
  already there (\<open>Found\<close>, with its slot), the key has been written (\<open>Placed\<close>, with
  the new state and the slot), or the body calls \<^verbatim>\<open>expand()\<close> and then itself
  (\<open>Grow\<close>, with the state \<^verbatim>\<open>expand()\<close> is called on).
\<close>

datatype 's attempt = Found nat | Placed 's nat | Grow 's

section \<open>hop\_set.hpp\<close>

text \<open>
  \<^verbatim>\<open>calloc\<close> hands out zero-filled buffers: a key of all-zero bytes is written \<open>0\<close>.
\<close>

definition Set_init_internal :: "32 word \<Rightarrow> ('k::zero, 'h::len) hop_base" where
  "Set_init_internal initial_size =
     (let initial_size' = npot32 initial_size
      in \<lparr> keys_m = replicate (unat (initial_size' + of_nat (hop_bucket TYPE('h)))) 0,
           hops_m = replicate (unat (initial_size' + of_nat (hop_bucket TYPE('h)))) 0,
           size_m = 0,
           capacity_m = initial_size' \<rparr>)"

text \<open>The constructor \<^verbatim>\<open>Set(size_type initial_size = HopSize)\<close>.\<close>

definition Set_new :: "32 word \<Rightarrow> ('k::zero, 'h::len) hop_base" where
  "Set_new initial_size = Set_init_internal initial_size"

definition Set_default :: "('k::zero, 'h::len) hop_base" where
  "Set_default = Set_new (of_nat (HopSize TYPE('h)))"

text \<open>
  The displacement loop \<^verbatim>\<open>while(idx > bucket_index + traits::hop_bucket - 1)\<close> of
  \<^verbatim>\<open>Set::insert\<close>.  \<open>Inl\<close> carries the state and the final \<^verbatim>\<open>idx\<close> when the loop
  ends; \<open>Inr\<close> carries the state on which the body calls \<^verbatim>\<open>expand()\<close>, the
  reservation of \<^verbatim>\<open>idx\<close> already withdrawn by \<^verbatim>\<open>hops_[idx] ^= 1\<close>.  A moved-from
  key keeps its value (keys are trivially movable values here).
\<close>

function Set_displace ::
  "('k, 'h::len) hop_base \<Rightarrow> nat \<Rightarrow> nat \<Rightarrow> (('k, 'h) hop_base \<times> nat) + ('k, 'h) hop_base" where
  "Set_displace s bucket_index idx =
     (if idx > bucket_index + hop_bucket TYPE('h) - 1
      then
        (let look_first = (if idx < hop_bucket TYPE('h) then 0 else idx - hop_bucket TYPE('h) + 1);
             oc = offset_loop (hops_m s) look_first idx look_first;
             offset = fst oc;
             cursor = snd oc
         in if offset \<ge> idx
            then Inr (s\<lparr>hops_m := (hops_m s)[idx := hops_m s ! idx XOR 1]\<rparr>)
            else
              (let ks = (keys_m s)[idx := keys_m s ! offset];
                   h1 = (hops_m s)[cursor := hops_m s ! cursor OR push_bit (idx - cursor + 1) 1];
                   h2 = h1[cursor := h1 ! cursor XOR push_bit (offset - cursor + 1) 1]
               in Set_displace (s\<lparr>keys_m := ks, hops_m := h2\<rparr>) bucket_index offset))
      else Inl (s, idx))"
  by pat_completeness auto
termination
  by (relation "measure (\<lambda>(s, bucket_index, idx). idx)") auto

declare Set_displace.simps [simp del]

definition Set_insert_body ::
  "('k \<Rightarrow> 64 word) \<Rightarrow> ('k, 'h::len) hop_base \<Rightarrow> 'k \<Rightarrow> ('k, 'h) hop_base attempt" where
  "Set_insert_body H s key =
     (let bucket_index = get_bucket_index H s key;
          ins_pt = find_internal s bucket_index key
      in if ins_pt \<noteq> end_index s then Found ins_pt
         else
           (let probe_end0 = bucket_index + probe_max TYPE('h);
                probe_end = (if probe_end0 > end_index s then end_index s else probe_end0);
                idx = probe_loop (hops_m s) probe_end bucket_index
            in if idx = probe_end then Grow s
               else
                 (case Set_displace (s\<lparr>hops_m := (hops_m s)[idx := hops_m s ! idx OR 1]\<rparr>)
                         bucket_index idx of
                    Inr s' \<Rightarrow> Grow s'
                  | Inl (s', idx') \<Rightarrow>
                      (let ks = (keys_m s')[idx' := key];
                           h1 = (hops_m s')[idx' := hops_m s' ! idx' OR 1];
                           h2 = h1[bucket_index :=
                                     h1 ! bucket_index OR push_bit (idx' - bucket_index + 1) 1]
                       in Placed (s'\<lparr>keys_m := ks, hops_m := h2, size_m := size_m s' + 1\<rparr>)
                            idx'))))"

text \<open>
  The loop of \<^verbatim>\<open>expand()\<close> over the old buffers, \<open>ins\<close> being the \<^verbatim>\<open>insert\<close> it
  calls; \<open>None\<close> when one of the calls does not return.
\<close>

fun Set_reinsert ::
  "(('k, 'h::len) hop_base \<Rightarrow> 'k \<Rightarrow> (bool \<times> ('k, 'h) hop_base) option) \<Rightarrow>
   'k list \<Rightarrow> 'h word list \<Rightarrow> nat list \<Rightarrow> ('k, 'h) hop_base \<Rightarrow> ('k, 'h) hop_base option" where
  "Set_reinsert ins old_keys old_hops [] s = Some s"
| "Set_reinsert ins old_keys old_hops (iter # iters) s =
     (if occupied old_hops iter
      then (case ins s (old_keys ! iter) of
              None \<Rightarrow> None
            | Some (_, s') \<Rightarrow> Set_reinsert ins old_keys old_hops iters s')
      else Set_reinsert ins old_keys old_hops iters s)"

definition Set_expand_with ::
  "(('k::zero, 'h::len) hop_base \<Rightarrow> 'k \<Rightarrow> (bool \<times> ('k, 'h) hop_base) option) \<Rightarrow>
   ('k, 'h) hop_base \<Rightarrow> ('k, 'h) hop_base option" where
  "Set_expand_with ins s =
     (let old_keys = keys_m s;
          old_hops = hops_m s;
          old_cap = capacity_m s;
          cap = capacity_m s * 2;
          s' = \<lparr> keys_m = replicate (unat (cap + of_nat (hop_bucket TYPE('h)))) 0,
                 hops_m = replicate (unat (cap + of_nat (hop_bucket TYPE('h)))) 0,
                 size_m = 0,
                 capacity_m = cap \<rparr>
      in Set_reinsert ins old_keys old_hops
           [0 ..< unat (old_cap + of_nat (hop_bucket TYPE('h)))] s')"

text \<open>
  \<^verbatim>\<open>Set::insert\<close>.  The function calls \<^verbatim>\<open>expand()\<close> and itself, and \<^verbatim>\<open>expand()\<close>
  calls it back; nothing bounds the number of growths (keys that share one hash value
  beyond the neighbourhood width are never placed), so the model counts the nesting
  depth of calls in its first argument and returns \<open>None\<close> when it is used up.

  The source has no test of the capacity.  With \<^verbatim>\<open>capacity_ = 0\<close> the bucket mask
  \<^verbatim>\<open>capacity_ - 1\<close> is \<^verbatim>\<open>0xFFFFFFFF\<close>, the bucket index is the low 32 bits of the hash,
  and the buffers have \<open>hop_bucket\<close> slots only: the source stores a key whose index
  is below \<open>hop_bucket\<close> there, and reads and writes outside the buffers for any other
  key.  Here the model departs from the source: it returns \<open>None\<close> for every insert
  into a table of capacity 0.  Only such tables are affected; a well-formed table
  (\<open>wf_table\<close> below) has a capacity other than 0.
\<close>

primrec Set_insert ::
  "nat \<Rightarrow> ('k \<Rightarrow> 64 word) \<Rightarrow> ('k::zero, 'h::len) hop_base \<Rightarrow> 'k \<Rightarrow>
   (bool \<times> ('k, 'h) hop_base) option" where
  "Set_insert 0 H s key = None"
| "Set_insert (Suc n) H s key =
     (if capacity_m s = 0 then None
      else
        (case Set_insert_body H s key of
           Found ins_pt \<Rightarrow> Some (False, s)
         | Placed s' idx \<Rightarrow> Some (True, s')
         | Grow s' \<Rightarrow>
             (case Set_expand_with (Set_insert n H) s' of
                None \<Rightarrow> None
              | Some s'' \<Rightarrow> Set_insert n H s'' key)))"

definition Set_expand ::
  "nat \<Rightarrow> ('k \<Rightarrow> 64 word) \<Rightarrow> ('k::zero, 'h::len) hop_base \<Rightarrow> ('k, 'h) hop_base option" where
  "Set_expand n H s = Set_expand_with (Set_insert n H) s"

text \<open>\<^verbatim>\<open>Set::find\<close>: the index of the iterator it returns.\<close>

definition Set_find :: "('k \<Rightarrow> 64 word) \<Rightarrow> ('k, 'h::len) hop_base \<Rightarrow> 'k \<Rightarrow> nat" where
  "Set_find H s key =
     (let bucket_index = get_bucket_index H s key
      in iter_next s (find_internal s bucket_index key))"

definition Set_end :: "('k, 'h::len) hop_base \<Rightarrow> nat" where
  "Set_end s = iter_next s (end_index s)"

definition Set_remove ::
  "('k \<Rightarrow> 64 word) \<Rightarrow> ('k, 'h::len) hop_base \<Rightarrow> 'k \<Rightarrow> bool \<times> ('k, 'h) hop_base" where
  "Set_remove H s key =
     (let bucket_index = get_bucket_index H s key;
          index = find_internal s bucket_index key
      in if index \<noteq> end_index s
         then
           (let h1 = (hops_m s)[bucket_index :=
                        hops_m s ! bucket_index XOR push_bit (index - bucket_index + 1) 1];
                h2 = h1[index := h1 ! index XOR 1]
            in (True, s\<lparr>hops_m := h2, size_m := size_m s - 1\<rparr>))
         else (False, s))"

text \<open>
  A range-based \<^verbatim>\<open>for\<close> over a set walks the iterator from \<^verbatim>\<open>begin()\<close> to
  \<^verbatim>\<open>end()\<close>: it visits, in increasing order, every index below the end index whose
  occupancy bit is set when the cursor reaches it.  The loops below run over that range
  of indices and test the bit of the container being walked.
\<close>

text \<open>The copy constructor: \<^verbatim>\<open>Set()\<close> followed by \<^verbatim>\<open>clone(other)\<close>.\<close>

definition Set_clone :: "('k, 'h::len) hop_base \<Rightarrow> ('k, 'h) hop_base" where
  "Set_clone other =
     \<lparr> keys_m = take (end_index other) (keys_m other),
       hops_m = take (end_index other) (hops_m other),
       size_m = size_m other,
       capacity_m = capacity_m other \<rparr>"

text \<open>\<^verbatim>\<open>operator&=\<close>: the set walked is the one being changed.\<close>

fun Set_and_assign_loop ::
  "('k \<Rightarrow> 64 word) \<Rightarrow> ('k, 'h::len) hop_base \<Rightarrow> nat list \<Rightarrow> ('k, 'h) hop_base \<Rightarrow>
   ('k, 'h) hop_base" where
  "Set_and_assign_loop H other [] s = s"
| "Set_and_assign_loop H other (i # is) s =
     (if occupied (hops_m s) i
      then (let e = keys_m s ! i
            in if \<not> has H other e
               then Set_and_assign_loop H other is (snd (Set_remove H s e))
               else Set_and_assign_loop H other is s)
      else Set_and_assign_loop H other is s)"

definition Set_and_assign ::
  "('k \<Rightarrow> 64 word) \<Rightarrow> ('k, 'h::len) hop_base \<Rightarrow> ('k, 'h) hop_base \<Rightarrow> ('k, 'h) hop_base" where
  "Set_and_assign H s other = Set_and_assign_loop H other [0 ..< end_index s] s"

definition Set_and ::
  "('k \<Rightarrow> 64 word) \<Rightarrow> ('k, 'h::len) hop_base \<Rightarrow> ('k, 'h) hop_base \<Rightarrow> ('k, 'h) hop_base" where
  "Set_and H s other = Set_and_assign H (Set_clone s) other"

text \<open>\<^verbatim>\<open>operator|=\<close>.\<close>

fun Set_or_assign_loop ::
  "nat \<Rightarrow> ('k \<Rightarrow> 64 word) \<Rightarrow> ('k, 'h::len) hop_base \<Rightarrow> nat list \<Rightarrow> ('k::zero, 'h) hop_base \<Rightarrow>
   ('k, 'h) hop_base option" where
  "Set_or_assign_loop n H other [] s = Some s"
| "Set_or_assign_loop n H other (i # is) s =
     (if occupied (hops_m other) i
      then (case Set_insert n H s (keys_m other ! i) of
              None \<Rightarrow> None
            | Some (_, s') \<Rightarrow> Set_or_assign_loop n H other is s')
      else Set_or_assign_loop n H other is s)"

definition Set_or_assign ::
  "nat \<Rightarrow> ('k \<Rightarrow> 64 word) \<Rightarrow> ('k::zero, 'h::len) hop_base \<Rightarrow> ('k, 'h) hop_base \<Rightarrow>
   ('k, 'h) hop_base option" where
  "Set_or_assign n H s other = Set_or_assign_loop n H other [0 ..< end_index other] s"

definition Set_or ::
  "nat \<Rightarrow> ('k \<Rightarrow> 64 word) \<Rightarrow> ('k::zero, 'h::len) hop_base \<Rightarrow> ('k, 'h) hop_base \<Rightarrow>
   ('k, 'h) hop_base option" where
  "Set_or n H s other =
     (if size_m other > size_m s
      then Set_or_assign n H (Set_clone other) s
      else Set_or_assign n H (Set_clone s) other)"

text \<open>\<^verbatim>\<open>intersects\<close>.\<close>

fun Set_intersects_loop ::
  "('k \<Rightarrow> 64 word) \<Rightarrow> ('k, 'h::len) hop_base \<Rightarrow> ('k, 'h) hop_base \<Rightarrow> nat list \<Rightarrow> bool" where
  "Set_intersects_loop H walked probed [] = False"
| "Set_intersects_loop H walked probed (i # is) =
     (if occupied (hops_m walked) i \<and> has H probed (keys_m walked ! i) then True
      else Set_intersects_loop H walked probed is)"

definition Set_intersects ::
  "('k \<Rightarrow> 64 word) \<Rightarrow> ('k, 'h::len) hop_base \<Rightarrow> ('k, 'h) hop_base \<Rightarrow> bool" where
  "Set_intersects H s other =
     (if size_m other > size_m s
      then Set_intersects_loop H s other [0 ..< end_index s]
      else Set_intersects_loop H other s [0 ..< end_index other])"

text \<open>\<^verbatim>\<open>operator-=\<close> and \<^verbatim>\<open>operator-\<close>.\<close>

fun Set_minus_assign_loop ::
  "('k \<Rightarrow> 64 word) \<Rightarrow> ('k, 'h::len) hop_base \<Rightarrow> nat list \<Rightarrow> ('k, 'h) hop_base \<Rightarrow>
   ('k, 'h) hop_base" where
  "Set_minus_assign_loop H other [] s = s"
| "Set_minus_assign_loop H other (i # is) s =
     (if occupied (hops_m other) i
      then (let e = keys_m other ! i
            in if has H s e
               then Set_minus_assign_loop H other is (snd (Set_remove H s e))
               else Set_minus_assign_loop H other is s)
      else Set_minus_assign_loop H other is s)"

definition Set_minus_assign ::
  "('k \<Rightarrow> 64 word) \<Rightarrow> ('k, 'h::len) hop_base \<Rightarrow> ('k, 'h) hop_base \<Rightarrow> ('k, 'h) hop_base" where
  "Set_minus_assign H s other = Set_minus_assign_loop H other [0 ..< end_index other] s"

definition Set_minus ::
  "('k \<Rightarrow> 64 word) \<Rightarrow> ('k, 'h::len) hop_base \<Rightarrow> ('k, 'h) hop_base \<Rightarrow> ('k, 'h) hop_base" where
  "Set_minus H s other = Set_minus_assign H (Set_clone s) other"

text \<open>\<^verbatim>\<open>operator^=\<close> and \<^verbatim>\<open>operator^\<close>.\<close>

fun Set_xor_assign_loop ::
  "nat \<Rightarrow> ('k \<Rightarrow> 64 word) \<Rightarrow> ('k, 'h::len) hop_base \<Rightarrow> nat list \<Rightarrow> ('k::zero, 'h) hop_base \<Rightarrow>
   ('k, 'h) hop_base option" where
  "Set_xor_assign_loop n H other [] s = Some s"
| "Set_xor_assign_loop n H other (i # is) s =
     (if occupied (hops_m other) i
      then (let e = keys_m other ! i
            in if has H s e
               then Set_xor_assign_loop n H other is (snd (Set_remove H s e))
               else (case Set_insert n H s e of
                       None \<Rightarrow> None
                     | Some (_, s') \<Rightarrow> Set_xor_assign_loop n H other is s'))
      else Set_xor_assign_loop n H other is s)"

definition Set_xor_assign ::
  "nat \<Rightarrow> ('k \<Rightarrow> 64 word) \<Rightarrow> ('k::zero, 'h::len) hop_base \<Rightarrow> ('k, 'h) hop_base \<Rightarrow>
   ('k, 'h) hop_base option" where
  "Set_xor_assign n H s other = Set_xor_assign_loop n H other [0 ..< end_index other] s"

definition Set_xor ::
  "nat \<Rightarrow> ('k \<Rightarrow> 64 word) \<Rightarrow> ('k::zero, 'h::len) hop_base \<Rightarrow> ('k, 'h) hop_base \<Rightarrow>
   ('k, 'h) hop_base option" where
  "Set_xor n H s other = Set_xor_assign n H (Set_clone s) other"

text \<open>
  \<^verbatim>\<open>clear()\<close> for trivially destructible keys: \<^verbatim>\<open>std::memset(hops_, 0, capacity_ +
  traits::hop_bucket)\<close>.  The third argument of \<^verbatim>\<open>memset\<close> counts bytes, and the call
  passes the number of hop words.  \<open>memset_zero hs n\<close> clears the first \<open>n\<close> bytes of
  the buffer \<open>hs\<close>, whose words take \<open>LENGTH('h) div 8\<close> bytes each: a word wholly
  below the limit becomes 0, a word wholly above it is untouched, and of a word across
  the limit the low-address bytes are cleared (the low-order bytes, on a little-endian
  machine).
\<close>

definition hop_bytes :: "'h::len itself \<Rightarrow> nat" where
  "hop_bytes _ = LENGTH('h) div 8"

definition memset_zero :: "'h::len word list \<Rightarrow> nat \<Rightarrow> 'h word list" where
  "memset_zero hs n =
     map (\<lambda>i. (hs ! i) AND NOT (mask (8 * (n - i * hop_bytes TYPE('h))))) [0 ..< length hs]"

definition Set_clear_internal :: "('k, 'h::len) hop_base \<Rightarrow> ('k, 'h) hop_base" where
  "Set_clear_internal s = s\<lparr>hops_m := memset_zero (hops_m s) (end_index s), size_m := 0\<rparr>"

definition Set_clear :: "('k, 'h::len) hop_base \<Rightarrow> ('k, 'h) hop_base" where
  "Set_clear s = Set_clear_internal s"

text \<open>
  Serialisation.  The serialiser is a template parameter with a \<^verbatim>\<open>save\<close> and a
  \<^verbatim>\<open>load\<close> for each type it is called with; here it is the stream of cells it has
  written, with one cell per call and a coding of each of the three types into cells.
\<close>

record (overloaded) ('k, 'h, 'c) serialiser =
  put_u32 :: "32 word \<Rightarrow> 'c"
  get_u32 :: "'c \<Rightarrow> 32 word"
  put_hop :: "'h word \<Rightarrow> 'c"
  get_hop :: "'c \<Rightarrow> 'h word"
  put_key :: "'k \<Rightarrow> 'c"
  get_key :: "'c \<Rightarrow> 'k"

definition Set_save :: "('k, 'h::len, 'c) serialiser \<Rightarrow> ('k, 'h) hop_base \<Rightarrow> 'c list" where
  "Set_save ser s =
     [put_u32 ser (size_m s), put_u32 ser (capacity_m s)]
     @ map (put_hop ser) (take (end_index s) (hops_m s))
     @ map (put_key ser) (take (end_index s) (keys_m s))"

text \<open>
  \<^verbatim>\<open>load\<close> reads the size, the capacity, then \<^verbatim>\<open>capacity_ + hop_bucket\<close> keys, then as
  many hop words.  Both loops of the source test \<^verbatim>\<open>iter\<close> and increment an undeclared
  \<^verbatim>\<open>i\<close>; the model reads the increment as \<^verbatim>\<open>++iter\<close>.  \<open>None\<close> when the stream ends
  early.
\<close>

definition Set_load :: "('k, 'h::len, 'c) serialiser \<Rightarrow> 'c list \<Rightarrow> ('k, 'h) hop_base option" where
  "Set_load ser cells =
     (case cells of
        c_size # c_cap # rest \<Rightarrow>
          (let sz = get_u32 ser c_size;
               cap = get_u32 ser c_cap;
               n = unat (cap + of_nat (hop_bucket TYPE('h)))
           in if length rest < n + n then None
              else Some \<lparr> keys_m = map (get_key ser) (take n rest),
                          hops_m = map (get_hop ser) (take n (drop n rest)),
                          size_m = sz,
                          capacity_m = cap \<rparr>)
      | _ \<Rightarrow> None)"

section \<open>hop\_dict.hpp\<close>

definition Dict_init_internal :: "32 word \<Rightarrow> ('k::zero, 'v::zero, 'h::len) dict" where
  "Dict_init_internal initial_size =
     (let initial_size' = npot32 initial_size
      in \<lparr> keys_m = replicate (unat (initial_size' + of_nat (hop_bucket TYPE('h)))) 0,
           hops_m = replicate (unat (initial_size' + of_nat (hop_bucket TYPE('h)))) 0,
           size_m = 0,
           capacity_m = initial_size',
           values_m = replicate (unat (initial_size' + of_nat (hop_bucket TYPE('h)))) 0 \<rparr>)"

text \<open>The constructor \<^verbatim>\<open>Dict(size_type initial_size = HopSize)\<close>.\<close>

definition Dict_new :: "32 word \<Rightarrow> ('k::zero, 'v::zero, 'h::len) dict" where
  "Dict_new initial_size = Dict_init_internal initial_size"

definition Dict_default :: "('k::zero, 'v::zero, 'h::len) dict" where
  "Dict_default = Dict_new (of_nat (HopSize TYPE('h)))"

text \<open>
  The iterator that \<^verbatim>\<open>Dict\<close> hands out for an index: the constructor of the base
  iterator calls \<^verbatim>\<open>next()\<close>, and the constructor of \<^verbatim>\<open>iterator_base\<close> calls it again.
\<close>

definition Dict_iterator :: "('k, 'v, 'h::len) dict \<Rightarrow> nat \<Rightarrow> nat" where
  "Dict_iterator d index = iter_next d (iter_next d index)"

text \<open>The displacement loop of \<^verbatim>\<open>Dict::insert\<close>; keys and values move together.\<close>

function Dict_displace ::
  "('k, 'v, 'h::len) dict \<Rightarrow> nat \<Rightarrow> nat \<Rightarrow> (('k, 'v, 'h) dict \<times> nat) + ('k, 'v, 'h) dict" where
  "Dict_displace d bucket_index idx =
     (if idx > bucket_index + hop_bucket TYPE('h) - 1
      then
        (let look_first = (if idx < hop_bucket TYPE('h) then 0 else idx - hop_bucket TYPE('h) + 1);
             oc = offset_loop (hops_m d) look_first idx look_first;
             offset = fst oc;
             cursor = snd oc
         in if offset \<ge> idx
            then Inr (d\<lparr>hops_m := (hops_m d)[idx := hops_m d ! idx XOR 1]\<rparr>)
            else
              (let ks = (keys_m d)[idx := keys_m d ! offset];
                   vs = (values_m d)[idx := values_m d ! offset];
                   h1 = (hops_m d)[cursor := hops_m d ! cursor OR push_bit (idx - cursor + 1) 1];
                   h2 = h1[cursor := h1 ! cursor XOR push_bit (offset - cursor + 1) 1]
               in Dict_displace (d\<lparr>keys_m := ks, hops_m := h2, values_m := vs\<rparr>)
                    bucket_index offset))
      else Inl (d, idx))"
  by pat_completeness auto
termination
  by (relation "measure (\<lambda>(d, bucket_index, idx). idx)") auto

declare Dict_displace.simps [simp del]

definition Dict_insert_body ::
  "('k \<Rightarrow> 64 word) \<Rightarrow> ('k, 'v, 'h::len) dict \<Rightarrow> 'k \<Rightarrow> 'v \<Rightarrow> ('k, 'v, 'h) dict attempt" where
  "Dict_insert_body H d key val =
     (let bucket_index = get_bucket_index H d key;
          ins_pt = find_internal d bucket_index key
      in if ins_pt \<noteq> end_index d then Found ins_pt
         else
           (let probe_end0 = bucket_index + probe_max TYPE('h);
                probe_end = (if probe_end0 > end_index d then end_index d else probe_end0);
                idx = probe_loop (hops_m d) probe_end bucket_index
            in if idx = probe_end then Grow d
               else
                 (case Dict_displace (d\<lparr>hops_m := (hops_m d)[idx := hops_m d ! idx OR 1]\<rparr>)
                         bucket_index idx of
                    Inr d' \<Rightarrow> Grow d'
                  | Inl (d', idx') \<Rightarrow>
                      (let ks = (keys_m d')[idx' := key];
                           vs = (values_m d')[idx' := val];
                           h1 = (hops_m d')[idx' := hops_m d' ! idx' OR 1];
                           h2 = h1[bucket_index :=
                                     h1 ! bucket_index OR push_bit (idx' - bucket_index + 1) 1]
                       in Placed (d'\<lparr>keys_m := ks, hops_m := h2, size_m := size_m d' + 1,
                                       values_m := vs\<rparr>)
                            idx'))))"

fun Dict_reinsert ::
  "(('k, 'v, 'h::len) dict \<Rightarrow> 'k \<Rightarrow> 'v \<Rightarrow> (nat \<times> ('k, 'v, 'h) dict) option) \<Rightarrow>
   'k list \<Rightarrow> 'v list \<Rightarrow> 'h word list \<Rightarrow> nat list \<Rightarrow> ('k, 'v, 'h) dict \<Rightarrow>
   ('k, 'v, 'h) dict option" where
  "Dict_reinsert ins old_keys old_values old_hops [] d = Some d"
| "Dict_reinsert ins old_keys old_values old_hops (iter # iters) d =
     (if occupied old_hops iter
      then (case ins d (old_keys ! iter) (old_values ! iter) of
              None \<Rightarrow> None
            | Some (_, d') \<Rightarrow> Dict_reinsert ins old_keys old_values old_hops iters d')
      else Dict_reinsert ins old_keys old_values old_hops iters d)"

definition Dict_expand_with ::
  "(('k::zero, 'v::zero, 'h::len) dict \<Rightarrow> 'k \<Rightarrow> 'v \<Rightarrow> (nat \<times> ('k, 'v, 'h) dict) option) \<Rightarrow>
   ('k, 'v, 'h) dict \<Rightarrow> ('k, 'v, 'h) dict option" where
  "Dict_expand_with ins d =
     (let old_keys = keys_m d;
          old_values = values_m d;
          old_hops = hops_m d;
          old_cap = capacity_m d;
          cap = capacity_m d * 2;
          d' = \<lparr> keys_m = replicate (unat (cap + of_nat (hop_bucket TYPE('h)))) 0,
                 hops_m = replicate (unat (cap + of_nat (hop_bucket TYPE('h)))) 0,
                 size_m = 0,
                 capacity_m = cap,
                 values_m = replicate (unat (cap + of_nat (hop_bucket TYPE('h)))) 0 \<rparr>
      in Dict_reinsert ins old_keys old_values old_hops
           [0 ..< unat (old_cap + of_nat (hop_bucket TYPE('h)))] d')"

text \<open>
  \<^verbatim>\<open>Dict::insert\<close>, with the call depth counted as in \<open>Set_insert\<close> and, as there,
  \<open>None\<close> for every insert into a map of capacity 0, where the source has no such
  test; the first component of the result is the index of the iterator returned.
\<close>

primrec Dict_insert ::
  "nat \<Rightarrow> ('k \<Rightarrow> 64 word) \<Rightarrow> ('k::zero, 'v::zero, 'h::len) dict \<Rightarrow> 'k \<Rightarrow> 'v \<Rightarrow>
   (nat \<times> ('k, 'v, 'h) dict) option" where
  "Dict_insert 0 H d key val = None"
| "Dict_insert (Suc n) H d key val =
     (if capacity_m d = 0 then None
      else
        (case Dict_insert_body H d key val of
           Found ins_pt \<Rightarrow> Some (Dict_iterator d ins_pt, d)
         | Placed d' idx \<Rightarrow> Some (Dict_iterator d' idx, d')
         | Grow d' \<Rightarrow>
             (case Dict_expand_with (Dict_insert n H) d' of
                None \<Rightarrow> None
              | Some d'' \<Rightarrow> Dict_insert n H d'' key val)))"

definition Dict_expand ::
  "nat \<Rightarrow> ('k \<Rightarrow> 64 word) \<Rightarrow> ('k::zero, 'v::zero, 'h::len) dict \<Rightarrow> ('k, 'v, 'h) dict option" where
  "Dict_expand n H d = Dict_expand_with (Dict_insert n H) d"

definition Dict_find :: "('k \<Rightarrow> 64 word) \<Rightarrow> ('k, 'v, 'h::len) dict \<Rightarrow> 'k \<Rightarrow> nat" where
  "Dict_find H d key =
     (let bucket_index = get_bucket_index H d key
      in Dict_iterator d (find_internal d bucket_index key))"

definition Dict_end :: "('k, 'v, 'h::len) dict \<Rightarrow> nat" where
  "Dict_end d = Dict_iterator d (end_index d)"

definition Dict_erase ::
  "('k \<Rightarrow> 64 word) \<Rightarrow> ('k, 'v, 'h::len) dict \<Rightarrow> 'k \<Rightarrow> bool \<times> ('k, 'v, 'h) dict" where
  "Dict_erase H d key =
     (let bucket_index = get_bucket_index H d key;
          index = find_internal d bucket_index key
      in if index \<noteq> end_index d
         then
           (let h1 = (hops_m d)[bucket_index :=
                        hops_m d ! bucket_index XOR push_bit (index - bucket_index + 1) 1];
                h2 = h1[index := h1 ! index XOR 1]
            in (True, d\<lparr>hops_m := h2, size_m := size_m d - 1\<rparr>))
         else (False, d))"

definition Dict_get :: "('k \<Rightarrow> 64 word) \<Rightarrow> ('k, 'v, 'h::len) dict \<Rightarrow> 'k \<Rightarrow> 'v \<Rightarrow> 'v" where
  "Dict_get H d key default_value =
     (let iter = find_index H d key
      in if iter \<noteq> end_index d then values_m d ! iter else default_value)"

section \<open>Reading a table\<close>

text \<open>
  \<open>owns hs h i\<close>: the bitmap word of the home bucket \<open>h\<close> has the displacement bit for
  slot \<open>i\<close> set; it is bit \<open>i - h + 1\<close>, as \<^verbatim>\<open>insert\<close> sets it and
  \<^verbatim>\<open>find_internal\<close> reads it.
\<close>

definition owns :: "'h::len word list \<Rightarrow> nat \<Rightarrow> nat \<Rightarrow> bool" where
  "owns hs h i \<longleftrightarrow> h \<le> i \<and> bit (hs ! h) (i - h + 1)"

text \<open>The slots whose occupancy bit is set, and the keys they hold (outside \<open>R\<close>).\<close>

definition live :: "('k, 'h::len, 'z) hop_base_scheme \<Rightarrow> nat set" where
  "live s = {i. i < end_index s \<and> occupied (hops_m s) i}"

definition elements :: "('k, 'h::len, 'z) hop_base_scheme \<Rightarrow> nat set \<Rightarrow> 'k set" where
  "elements s R = {keys_m s ! i | i. i \<in> live s \<and> i \<notin> R}"

text \<open>
  The relation between the two buffers that the operations keep, for \<open>E\<close> slots and the
  bucket function \<open>B\<close>: an owned slot is occupied and holds a key of the owning bucket;
  an occupied slot is owned by the bucket of its key; no key is held twice.  \<open>R\<close> is
  the set of slots reserved by an \<^verbatim>\<open>insert\<close> under way: occupied, not owned yet.
\<close>

definition slots_inv ::
  "nat \<Rightarrow> ('k \<Rightarrow> nat) \<Rightarrow> 'k list \<Rightarrow> 'h::len word list \<Rightarrow> nat set \<Rightarrow> bool" where
  "slots_inv E B ks hs R \<longleftrightarrow>
     length ks = E \<and> length hs = E \<and>
     (\<forall>h i. h < E \<longrightarrow> owns hs h i \<longrightarrow> i < E \<and> occupied hs i \<and> i \<notin> R \<and> B (ks ! i) = h) \<and>
     (\<forall>i. i < E \<longrightarrow> occupied hs i \<longrightarrow> i \<notin> R \<longrightarrow> owns hs (B (ks ! i)) i) \<and>
     (\<forall>i j. i < E \<longrightarrow> j < E \<longrightarrow> occupied hs i \<longrightarrow> occupied hs j \<longrightarrow> i \<notin> R \<longrightarrow> j \<notin> R \<longrightarrow>
        ks ! i = ks ! j \<longrightarrow> i = j) \<and>
     (\<forall>i. i \<in> R \<longrightarrow> i < E \<and> occupied hs i)"

definition table_inv ::
  "('k \<Rightarrow> 64 word) \<Rightarrow> ('k, 'h::len, 'z) hop_base_scheme \<Rightarrow> nat set \<Rightarrow> bool" where
  "table_inv H s R \<longleftrightarrow>
     valid_hop_size TYPE('h) \<and>
     (\<exists>j\<le>31. capacity_m s = 2 ^ j) \<and>
     slots_inv (end_index s) (get_bucket_index H s) (keys_m s) (hops_m s) R \<and>
     unat (size_m s) + card R = card (live s)"

text \<open>A well-formed table: the relation with no slot reserved.\<close>

definition wf_table :: "('k \<Rightarrow> 64 word) \<Rightarrow> ('k, 'h::len, 'z) hop_base_scheme \<Rightarrow> bool" where
  "wf_table H s \<longleftrightarrow> table_inv H s {}"

section \<open>Example tables\<close>

text \<open>
  A hash for 32-bit keys that widens the key, as the identity \<^verbatim>\<open>std::hash\<close> of the
  common standard libraries does.
\<close>

definition ident_hash :: "32 word \<Rightarrow> 64 word" where
  "ident_hash k = ucast k"

text \<open>The set of hop size 8 and default capacity after \<^verbatim>\<open>insert(8)\<close>.\<close>

definition table_8 :: "(32 word, 8) hop_base" where
  "table_8 = \<lparr> keys_m = [8, 0, 0, 0, 0, 0, 0, 0, 0, 0, 0, 0, 0, 0, 0],
               hops_m = [3, 0, 0, 0, 0, 0, 0, 0, 0, 0, 0, 0, 0, 0, 0],
               size_m = 1, capacity_m = 8 \<rparr>"

text \<open>The set of hop size 32 and default capacity after \<^verbatim>\<open>insert(20)\<close>.\<close>

definition table_32 :: "(32 word, 32) hop_base" where
  "table_32 = \<lparr> keys_m = (replicate 63 0)[20 := 20],
                hops_m = (replicate 63 0)[20 := 3],
                size_m = 1, capacity_m = 32 \<rparr>"

text \<open>
  A serialiser that writes every value as one 32-bit cell, for 32-bit keys and the hop
  words of 8 bits.
\<close>

definition cell_serialiser :: "(32 word, 8, 32 word) serialiser" where
  "cell_serialiser =
     \<lparr> put_u32 = (\<lambda>w. w), get_u32 = (\<lambda>c. c),
       put_hop = ucast, get_hop = ucast,
       put_key = (\<lambda>k. k), get_key = (\<lambda>c. c) \<rparr>"

text \<open>What \<open>Set_load\<close> makes of the cells that \<open>Set_save\<close> wrote for \<open>table_8\<close>.\<close>

definition table_8_reloaded :: "(32 word, 8) hop_base" where
  "table_8_reloaded = \<lparr> keys_m = [3, 0, 0, 0, 0, 0, 0, 0, 0, 0, 0, 0, 0, 0, 0],
                        hops_m = [8, 0, 0, 0, 0, 0, 0, 0, 0, 0, 0, 0, 0, 0, 0],
                        size_m = 1, capacity_m = 8 \<rparr>"

section \<open>A map seen as a set\<close>

text \<open>
  The members that \<^verbatim>\<open>Dict\<close> inherits from \<^verbatim>\<open>HopscotchBase\<close>, as a set of its keys.
\<close>

definition key_table :: "('k, 'v, 'h::len) dict \<Rightarrow> ('k, 'h) hop_base" where
  "key_table d = \<lparr> keys_m = keys_m d, hops_m = hops_m d, size_m = size_m d,
                    capacity_m = capacity_m d \<rparr>"

section \<open>Sequences of operations\<close>

text \<open>
  A caller's sequence of \<^verbatim>\<open>insert\<close> and \<^verbatim>\<open>remove\<close> calls on a set, run from a state;
  \<open>None\<close> when one of the inserts has no result.
\<close>

datatype 'k set_op = Insert 'k | Remove 'k

fun Set_run ::
  "nat \<Rightarrow> ('k \<Rightarrow> 64 word) \<Rightarrow> 'k set_op list \<Rightarrow> ('k::zero, 'h::len) hop_base \<Rightarrow>
   ('k, 'h) hop_base option" where
  "Set_run n H [] s = Some s"
| "Set_run n H (Insert k # ops) s =
     (case Set_insert n H s k of None \<Rightarrow> None | Some (_, s') \<Rightarrow> Set_run n H ops s')"
| "Set_run n H (Remove k # ops) s = Set_run n H ops (snd (Set_remove H s k))"

text \<open>The same for a map, with \<^verbatim>\<open>insert(key, value)\<close> and \<^verbatim>\<open>erase(key)\<close>.\<close>

datatype ('k, 'v) dict_op = Put 'k 'v | Erase 'k

fun Dict_run ::
  "nat \<Rightarrow> ('k \<Rightarrow> 64 word) \<Rightarrow> ('k, 'v) dict_op list \<Rightarrow> ('k::zero, 'v::zero, 'h::len) dict \<Rightarrow>
   ('k, 'v, 'h) dict option" where
  "Dict_run n H [] d = Some d"
| "Dict_run n H (Put k v # ops) d =
     (case Dict_insert n H d k v of None \<Rightarrow> None | Some (_, d') \<Rightarrow> Dict_run n H ops d')"
| "Dict_run n H (Erase k # ops) d = Dict_run n H ops (snd (Dict_erase H d k))"

text \<open>
  The keys that a sequence of operations leaves, from the keys \<open>A\<close> before it: an
  insert adds its key, a removal takes its key away.
\<close>

fun keys_after :: "'k set_op list \<Rightarrow> 'k set \<Rightarrow> 'k set" where
  "keys_after [] A = A"
| "keys_after (Insert k # ops) A = keys_after ops (insert k A)"
| "keys_after (Remove k # ops) A = keys_after ops (A - {k})"

fun key_op :: "('k, 'v) dict_op \<Rightarrow> 'k set_op" where
  "key_op (Put k v) = Insert k"
| "key_op (Erase k) = Remove k"

section \<open>Example runs\<close>

text \<open>
  On the set of hop size 8 and capacity 8: the keys 0 to 6 fill the neighbourhood of
  bucket 0, the insert of 8 (bucket 0) displaces the key 1, and 1 is removed.
\<close>

definition set_ops_example :: "32 word set_op list" where
  "set_ops_example =
     [Insert 0, Insert 1, Insert 2, Insert 3, Insert 4, Insert 5, Insert 6, Insert 8, Remove 1]"

definition set_example_result :: "(32 word, 8) hop_base" where
  "set_example_result =
     \<lparr> keys_m = [0, 8, 2, 3, 4, 5, 6, 1, 0, 0, 0, 0, 0, 0, 0],
       hops_m = [7, 1, 3, 3, 3, 3, 3, 0, 0, 0, 0, 0, 0, 0, 0],
       size_m = 7, capacity_m = 8 \<rparr>"

text \<open>
  On the map of hop size 8 and capacity 8: eight keys of bucket 0 force a growth to
  capacity 16, the key 8 is inserted again with another value, and 16 is erased.
\<close>

definition dict_ops_example :: "(32 word, 32 word) dict_op list" where
  "dict_ops_example =
     [Put 0 10, Put 8 11, Put 16 12, Put 24 13, Put 32 14, Put 40 15, Put 48 16, Put 56 17,
      Put 8 99, Erase 16]"

definition dict_example_result :: "(32 word, 32 word, 8) dict" where
  "dict_example_result =
     \<lparr> keys_m = [0, 16, 32, 48, 0, 0, 0, 0, 8, 24, 40, 56, 0, 0, 0, 0, 0, 0, 0, 0, 0, 0, 0],
       hops_m = [27, 0, 1, 1, 0, 0, 0, 0, 31, 1, 1, 1, 0, 0, 0, 0, 0, 0, 0, 0, 0, 0, 0],
       size_m = 7, capacity_m = 16,
       values_m = [10, 12, 14, 16, 0, 0, 0, 0, 11, 13, 15, 17, 0, 0, 0, 0, 0, 0, 0, 0, 0, 0, 0] \<rparr>"

text \<open>The map of hop size 8 and default capacity after \<^verbatim>\<open>insert(8, 5)\<close>.\<close>

definition dict_8 :: "(32 word, 32 word, 8) dict" where
  "dict_8 = \<lparr> keys_m = [8, 0, 0, 0, 0, 0, 0, 0, 0, 0, 0, 0, 0, 0, 0],
              hops_m = [3, 0, 0, 0, 0, 0, 0, 0, 0, 0, 0, 0, 0, 0, 0],
              size_m = 1, capacity_m = 8,
              values_m = [5, 0, 0, 0, 0, 0, 0, 0, 0, 0, 0, 0, 0, 0, 0] \<rparr>"

text \<open>The set of hop size 8 holding the keys 0 to 6, and after \<^verbatim>\<open>insert(8)\<close>.\<close>

definition set_7 :: "(32 word, 8) hop_base" where
  "set_7 = \<lparr> keys_m = [0, 1, 2, 3, 4, 5, 6, 0, 0, 0, 0, 0, 0, 0, 0],
             hops_m = [3, 3, 3, 3, 3, 3, 3, 0, 0, 0, 0, 0, 0, 0, 0],
             size_m = 7, capacity_m = 8 \<rparr>"

definition set_7_8 :: "(32 word, 8) hop_base" where
  "set_7_8 = \<lparr> keys_m = [0, 8, 2, 3, 4, 5, 6, 1, 0, 0, 0, 0, 0, 0, 0],
               hops_m = [7, 129, 3, 3, 3, 3, 3, 1, 0, 0, 0, 0, 0, 0, 0],
               size_m = 8, capacity_m = 8 \<rparr>"

text \<open>
  The map of hop size 8 holding seven keys of bucket 0, and after
  \<^verbatim>\<open>insert(56, 17)\<close>, which grows it.
\<close>

definition dict_7 :: "(32 word, 32 word, 8) dict" where
  "dict_7 = \<lparr> keys_m = [0, 8, 16, 24, 32, 40, 48, 0, 0, 0, 0, 0, 0, 0, 0],
              hops_m = [255, 1, 1, 1, 1, 1, 1, 0, 0, 0, 0, 0, 0, 0, 0],
              size_m = 7, capacity_m = 8,
              values_m = [10, 11, 12, 13, 14, 15, 16, 0, 0, 0, 0, 0, 0, 0, 0] \<rparr>"

definition dict_7_56 :: "(32 word, 32 word, 8) dict" where
  "dict_7_56 =
     \<lparr> keys_m = [0, 16, 32, 48, 0, 0, 0, 0, 8, 24, 40, 56, 0, 0, 0, 0, 0, 0, 0, 0, 0, 0, 0],
       hops_m = [31, 1, 1, 1, 0, 0, 0, 0, 31, 1, 1, 1, 0, 0, 0, 0, 0, 0, 0, 0, 0, 0, 0],
       size_m = 8, capacity_m = 16,
       values_m = [10, 12, 14, 16, 0, 0, 0, 0, 11, 13, 15, 17, 0, 0, 0, 0, 0, 0, 0, 0, 0, 0, 0] \<rparr>"

section \<open>What an erasure changes\<close>

text \<open>
  \<open>erased_bits hs hs' b index\<close>: the hop words \<open>hs'\<close> are the hop words \<open>hs\<close> with two
  bits cleared, the occupancy bit of slot \<open>index\<close> and the displacement bit for
  \<open>index\<close> in the word of the bucket \<open>b\<close>.
\<close>

definition erased_bits :: "'h::len word list \<Rightarrow> 'h word list \<Rightarrow> nat \<Rightarrow> nat \<Rightarrow> bool" where
  "erased_bits hs hs' b index \<longleftrightarrow>
     length hs' = length hs \<and>
     (\<forall>i m. i < length hs \<longrightarrow>
        (bit (hs' ! i) m \<longleftrightarrow>
           bit (hs ! i) m \<and> \<not> (i = index \<and> m = 0) \<and> \<not> (i = b \<and> m = index - b + 1)))"

section \<open>Two sets for the set operators\<close>

text \<open>
  On sets of hop size 8 and default capacity: the set \<open>a\<close> of the keys 0, 8, 16, 24, 1
  and the set \<open>b\<close> of the keys 1, 2, 32, 40, 48, 56 (inserted in this order), their
  union \<^verbatim>\<open>a | b\<close>, their symmetric difference \<^verbatim>\<open>a ^ b\<close>, and the union of their two
  differences \<^verbatim>\<open>(a - b) | (b - a)\<close>.  Each of the three holds eight keys of bucket 0
  of the capacity 8 and is reached through a growth to the capacity 16.  The last two
  hold the same keys in different slots.
\<close>

definition set_a :: "(32 word, 8) hop_base" where
  "set_a = \<lparr> keys_m = [0, 8, 16, 24, 1, 0, 0, 0, 0, 0, 0, 0, 0, 0, 0],
             hops_m = [31, 17, 1, 1, 1, 0, 0, 0, 0, 0, 0, 0, 0, 0, 0],
             size_m = 5, capacity_m = 8 \<rparr>"

definition set_b :: "(32 word, 8) hop_base" where
  "set_b = \<lparr> keys_m = [32, 1, 2, 40, 48, 56, 0, 0, 0, 0, 0, 0, 0, 0, 0],
             hops_m = [115, 3, 3, 1, 1, 1, 0, 0, 0, 0, 0, 0, 0, 0, 0],
             size_m = 6, capacity_m = 8 \<rparr>"

definition set_a_or_b :: "(32 word, 8) hop_base" where
  "set_a_or_b =
     \<lparr> keys_m = [32, 16, 48, 0, 1, 2, 0, 0, 8, 40, 56, 24, 0, 0, 0, 0, 0, 0, 0, 0, 0, 0, 0],
       hops_m = [31, 17, 17, 1, 1, 1, 0, 0, 31, 1, 1, 1, 0, 0, 0, 0, 0, 0, 0, 0, 0, 0, 0],
       size_m = 10, capacity_m = 16 \<rparr>"

definition set_a_xor_b :: "(32 word, 8) hop_base" where
  "set_a_xor_b =
     \<lparr> keys_m = [0, 16, 48, 32, 2, 0, 0, 0, 8, 24, 40, 56, 0, 0, 0, 0, 0, 0, 0, 0, 0, 0, 0],
       hops_m = [31, 1, 9, 1, 1, 0, 0, 0, 31, 1, 1, 1, 0, 0, 0, 0, 0, 0, 0, 0, 0, 0, 0],
       size_m = 9, capacity_m = 16 \<rparr>"

definition set_differences :: "(32 word, 8) hop_base" where
  "set_differences =
     \<lparr> keys_m = [32, 0, 16, 48, 2, 0, 0, 0, 40, 56, 8, 24, 0, 0, 0, 0, 0, 0, 0, 0, 0, 0, 0],
       hops_m = [31, 1, 9, 1, 1, 0, 0, 0, 31, 1, 1, 1, 0, 0, 0, 0, 0, 0, 0, 0, 0, 0, 0],
       size_m = 9, capacity_m = 16 \<rparr>"

section \<open>Keys that share a bucket at every capacity\<close>

text \<open>
  A hash function of 64-bit keys that returns the key, and the eight keys \<open>i * 2 ^ 32\<close>
  for \<open>i\<close> from 0 to 7.  The bucket index keeps the low 32 bits of the hash at most, so
  these keys have the bucket 0 in a table of any capacity.
\<close>

definition word_hash :: "64 word \<Rightarrow> 64 word" where
  "word_hash k = k"

definition colliding_keys :: "64 word list" where
  "colliding_keys = map (\<lambda>i. push_bit 32 (of_nat i)) [0 ..< 8]"

definition colliding_inserts :: "64 word set_op list" where
  "colliding_inserts = map Insert colliding_keys"

text \<open>
  The sets of hop size 8 and default capacity holding the first seven of these keys,
  the first four, and the last four.
\<close>

definition set_colliding_7 :: "(64 word, 8) hop_base" where
  "set_colliding_7 =
     \<lparr> keys_m = [0, 4294967296, 8589934592, 12884901888, 17179869184, 21474836480,
                 25769803776, 0, 0, 0, 0, 0, 0, 0, 0],
       hops_m = [255, 1, 1, 1, 1, 1, 1, 0, 0, 0, 0, 0, 0, 0, 0],
       size_m = 7, capacity_m = 8 \<rparr>"

definition set_colliding_a :: "(64 word, 8) hop_base" where
  "set_colliding_a =
     \<lparr> keys_m = [0, 4294967296, 8589934592, 12884901888, 0, 0, 0, 0, 0, 0, 0, 0, 0, 0, 0],
       hops_m = [31, 1, 1, 1, 0, 0, 0, 0, 0, 0, 0, 0, 0, 0, 0],
       size_m = 4, capacity_m = 8 \<rparr>"

definition set_colliding_b :: "(64 word, 8) hop_base" where
  "set_colliding_b =
     \<lparr> keys_m = [17179869184, 21474836480, 25769803776, 30064771072, 0, 0, 0, 0, 0, 0, 0,
                 0, 0, 0, 0],
       hops_m = [31, 1, 1, 1, 0, 0, 0, 0, 0, 0, 0, 0, 0, 0, 0],
       size_m = 4, capacity_m = 8 \<rparr>"

section \<open>Basic facts\<close>

lemma and_1_neq_0_iff_bit0: "(w :: 'a::len word) AND 1 \<noteq> 0 \<longleftrightarrow> bit w 0"
  by (simp add: and_one_eq bit_0 mod_2_eq_odd)

lemma occupied_iff: "occupied hs i \<longleftrightarrow> bit (hs ! i) 0"
  by (simp add: occupied_def and_1_neq_0_iff_bit0)

lemma word_eq_0_iff_no_bit: "(w :: 'a::len word) = 0 \<longleftrightarrow> (\<forall>j. \<not> bit w j)"
  by (auto simp: bit_eq_iff dest: bit_imp_le_length)

lemma find_loop_spec:
  "(find_loop ks hs index k e = e \<and> (\<forall>j. bit hs j \<longrightarrow> ks ! (index + j) \<noteq> k)) \<or>
   (\<exists>j. bit hs j \<and> ks ! (index + j) = k \<and> find_loop ks hs index k e = index + j \<and>
        (\<forall>j'<j. \<not> (bit hs j' \<and> ks ! (index + j') = k)))"
proof (induction ks hs index k e rule: find_loop.induct)
  case (1 ks hs index k e)
  show ?case
  proof (cases "hs = 0")
    case True
    then show ?thesis by (simp add: find_loop.simps)
  next
    case nz: False
    show ?thesis
    proof (cases "hs AND 1 \<noteq> 0 \<and> ks ! index = k")
      case True
      then have "bit hs 0 \<and> ks ! (index + 0) = k \<and> find_loop ks hs index k e = index + 0"
        using nz by (simp add: find_loop.simps and_1_neq_0_iff_bit0)
      then show ?thesis by blast
    next
      case False
      then have no0: "\<not> (bit hs 0 \<and> ks ! index = k)"
        by (simp add: and_1_neq_0_iff_bit0)
      have step: "find_loop ks hs index k e = find_loop ks (drop_bit 1 hs) (index + 1) k e"
        using nz False by (subst find_loop.simps) auto
      have bd: "\<And>j. bit (drop_bit (Suc 0) hs) j = bit hs (Suc j)"
        by (simp add: bit_drop_bit_eq)
      from "1.IH"[OF nz False]
      consider (a) "find_loop ks (drop_bit 1 hs) (index + 1) k e = e"
          "\<forall>j. bit (drop_bit 1 hs) j \<longrightarrow> ks ! (index + 1 + j) \<noteq> k"
        | (b) j where "bit (drop_bit 1 hs) j" "ks ! (index + 1 + j) = k"
          "find_loop ks (drop_bit 1 hs) (index + 1) k e = index + 1 + j"
          "\<forall>j'<j. \<not> (bit (drop_bit 1 hs) j' \<and> ks ! (index + 1 + j') = k)"
        by blast
      then show ?thesis
      proof cases
        case a
        have "\<forall>j. bit hs j \<longrightarrow> ks ! (index + j) \<noteq> k"
        proof (intro allI impI)
          fix j assume bj: "bit hs j"
          show "ks ! (index + j) \<noteq> k"
          proof (cases j)
            case 0
            then show ?thesis using no0 bj by simp
          next
            case (Suc j')
            then show ?thesis using a(2) bj by (simp add: bd)
          qed
        qed
        then show ?thesis using a(1) step by simp
      next
        case b
        have "\<forall>j'<Suc j. \<not> (bit hs j' \<and> ks ! (index + j') = k)"
        proof (intro allI impI)
          fix j' assume lt: "j' < Suc j"
          show "\<not> (bit hs j' \<and> ks ! (index + j') = k)"
          proof (cases j')
            case 0
            then show ?thesis using no0 by simp
          next
            case (Suc j'')
            then show ?thesis using b(4) lt by (simp add: bd)
          qed
        qed
        moreover have "bit hs (Suc j)" "ks ! (index + Suc j) = k"
          "find_loop ks hs index k e = index + Suc j"
          using b(1-3) step by (simp_all add: bd)
        ultimately show ?thesis by blast
      qed
    qed
  qed
qed


subsection \<open>Traits\<close>

lemma valid_hop_bucket:
  assumes "valid_hop_size TYPE('h::len)"
  shows "hop_bucket TYPE('h) = LENGTH('h) - 1" "7 \<le> hop_bucket TYPE('h)"
    "hop_bucket TYPE('h) \<le> 31" "hop_bucket TYPE('h) < LENGTH('h)"
  using assms by (auto simp: valid_hop_size_def hop_bucket_def)

lemma unat_pow2_32: "j \<le> 31 \<Longrightarrow> unat ((2::32 word) ^ j) = 2 ^ j"
proof -
  assume j: "j \<le> 31"
  have "(2::32 word) ^ j = of_nat (2 ^ j)" by simp
  moreover have "(2::nat) ^ j < 2 ^ 32" using j by (intro power_strict_increasing) simp_all
  ultimately show ?thesis by (simp only: unat_of_nat) simp
qed

lemma unat_ucast_32_64: "unat (ucast (m :: 32 word) :: 64 word) = unat m"
proof -
  have "unat m < 2 ^ 32" using unsigned_less[of m, where 'a=nat] by simp
  then have "unat m < 2 ^ 64" by simp
  then show ?thesis by (simp add: unsigned_ucast_eq take_bit_nat_eq_self_iff)
qed

lemma pow2_le_31: "j \<le> 31 \<Longrightarrow> (2::nat) ^ j \<le> 2147483648"
proof -
  assume "j \<le> 31"
  then have "(2::nat) ^ j \<le> 2 ^ 31" by (intro power_increasing) simp_all
  then show ?thesis by simp
qed

lemma end_index_pow2:
  fixes s :: "('k, 'h::len, 'z) hop_base_scheme"
  assumes v: "valid_hop_size TYPE('h)" and c: "capacity_m s = 2 ^ j" and j: "j \<le> 31"
  shows "end_index s = unat (capacity_m s) + hop_bucket TYPE('h)"
proof -
  have hb: "hop_bucket TYPE('h) \<le> 31" using v by (rule valid_hop_bucket)
  have u: "unat (capacity_m s) = 2 ^ j" using c j by (simp add: unat_pow2_32)
  have "unat (of_nat (hop_bucket TYPE('h)) :: 32 word) = hop_bucket TYPE('h)"
    using hb by (simp add: unat_of_nat)
  moreover have "(2::nat) ^ j + hop_bucket TYPE('h) < 2 ^ 32"
    using pow2_le_31[OF j] hb by simp
  ultimately show ?thesis
    unfolding end_index_def by (simp add: unat_word_ariths u)
qed

lemma get_bucket_index_less:
  fixes s :: "('k, 'h::len, 'z) hop_base_scheme"
  assumes "capacity_m s \<noteq> 0"
  shows "get_bucket_index H s k < unat (capacity_m s)"
proof -
  let ?m = "capacity_m s - 1"
  have "H k AND ucast ?m \<le> (ucast ?m :: 64 word)"
    by (rule word_and_le1)
  then have "unat (H k AND ucast ?m) \<le> unat (ucast ?m :: 64 word)"
    by (simp add: word_le_nat_alt)
  also have "\<dots> = unat ?m"
    by (rule unat_ucast_32_64)
  finally have a: "unat (H k AND ucast ?m) \<le> unat ?m" .
  have "unat (ucast (H k AND ucast ?m) :: 32 word) \<le> unat (H k AND ucast ?m)"
    by (simp add: unsigned_ucast_eq take_bit_eq_mod)
  with a have "get_bucket_index H s k \<le> unat ?m"
    by (simp add: get_bucket_index_def)
  moreover have "unat ?m < unat (capacity_m s)"
    using assms by (simp add: unat_minus_one unat_gt_0)
  ultimately show ?thesis by simp
qed

lemma get_bucket_index_cong:
  "capacity_m s' = capacity_m s \<Longrightarrow> get_bucket_index H s' = get_bucket_index H s"
  by (rule ext) (simp add: get_bucket_index_def)

subsection \<open>Bits of the hop words\<close>

lemma bit_or_push1: "bit ((w :: 'a::len word) OR push_bit n 1) m \<longleftrightarrow> bit w m \<or> (m = n \<and> n < LENGTH('a))"
  by (auto simp: bit_or_iff bit_push_bit_iff bit_1_iff bit_exp_iff dest: bit_imp_le_length)

lemma bit_xor_push1: "bit ((w :: 'a::len word) XOR push_bit n 1) m \<longleftrightarrow> (bit w m \<noteq> (m = n \<and> n < LENGTH('a)))"
  by (auto simp: bit_xor_iff bit_push_bit_iff bit_1_iff bit_exp_iff dest: bit_imp_le_length)

lemma bit_or_1: "bit ((w :: 'a::len word) OR 1) m \<longleftrightarrow> bit w m \<or> m = 0"
  by (auto simp: bit_or_iff bit_1_iff)

lemma bit_xor_1: "bit ((w :: 'a::len word) XOR 1) m \<longleftrightarrow> (bit w m \<noteq> (m = 0))"
  by (auto simp: bit_xor_iff bit_1_iff)

lemma occupied_update:
  "occupied (hs[c := w]) i \<longleftrightarrow> (if i = c \<and> c < length hs then bit w 0 else occupied hs i)"
  by (cases "c < length hs") (auto simp: occupied_iff nth_list_update list_update_beyond)

lemma owns_update:
  "owns (hs[c := w]) h i \<longleftrightarrow>
     (if h = c \<and> c < length hs then h \<le> i \<and> bit w (i - h + 1) else owns hs h i)"
  by (cases "c < length hs") (auto simp: owns_def nth_list_update list_update_beyond)

lemma owns_bound: "owns (hs :: 'h::len word list) h i \<Longrightarrow> h \<le> i \<and> i - h + 1 < LENGTH('h)"
  by (auto simp: owns_def dest: bit_imp_le_length)

subsection \<open>The loops\<close>

lemma probe_loop_spec:
  "b \<le> pe \<Longrightarrow>
   b \<le> probe_loop hs pe b \<and> probe_loop hs pe b \<le> pe \<and>
   (\<forall>i. b \<le> i \<and> i < probe_loop hs pe b \<longrightarrow> occupied hs i) \<and>
   (probe_loop hs pe b < pe \<longrightarrow> \<not> occupied hs (probe_loop hs pe b))"
proof (induction hs pe b rule: probe_loop.induct)
  case (1 hs pe idx)
  show ?case
  proof (cases "idx < pe \<and> occupied hs idx")
    case True
    then have eq: "probe_loop hs pe idx = probe_loop hs pe (idx + 1)"
      by (subst probe_loop.simps) simp
    have "idx + 1 \<le> pe" using True by simp
    from "1.IH"[OF True this] show ?thesis
      unfolding eq using True
      by (metis Suc_eq_plus1 Suc_leD le_antisym not_less_eq_eq)
  next
    case False
    then have eq: "probe_loop hs pe idx = idx"
      by (subst probe_loop.simps) auto
    show ?thesis unfolding eq using False "1.prems" by auto
  qed
qed

lemma ucast_and_push1:
  "n < 32 \<Longrightarrow> ((ucast (w :: 'h::len word) :: 32 word) AND push_bit n 1 \<noteq> 0) \<longleftrightarrow> bit w n"
proof -
  assume n: "n < 32"
  have "((ucast w :: 32 word) AND push_bit n 1 \<noteq> 0) \<longleftrightarrow>
      (\<exists>m. bit ((ucast w :: 32 word) AND push_bit n 1) m)"
    by (simp add: word_eq_0_iff_no_bit)
  also have "\<dots> \<longleftrightarrow> bit w n"
    using n by (auto simp: bit_and_iff bit_push_bit_iff bit_1_iff bit_ucast_iff bit_exp_iff)
  finally show ?thesis .
qed

lemma drop_bit_push1: "drop_bit 1 (push_bit (Suc n) (1 :: 32 word)) = push_bit n 1"
  if "Suc n < 32"
  using that by (intro bit_word_eqI) (auto simp: bit_drop_bit_eq bit_exp_iff simp flip: power_Suc)

lemma cursor_loop_spec:
  "c \<le> Suc offset \<Longrightarrow> Suc offset - c < 32 \<Longrightarrow> m = push_bit (Suc offset - c) 1 \<Longrightarrow>
   c \<le> cursor_loop hs offset c m \<and> cursor_loop hs offset c m \<le> Suc offset \<and>
   (cursor_loop hs offset c m \<le> offset \<longrightarrow> owns hs (cursor_loop hs offset c m) offset)"
proof (induction hs offset c m rule: cursor_loop.induct)
  case (1 hs offset cursor hop_mask)
  show ?case
  proof (cases "cursor \<le> offset \<and> \<not> ((ucast (hs ! cursor) :: 32 word) AND hop_mask \<noteq> 0)")
    case True
    then have eq: "cursor_loop hs offset cursor hop_mask =
        cursor_loop hs offset (cursor + 1) (drop_bit 1 hop_mask)"
      by (subst cursor_loop.simps) simp
    have a: "cursor + 1 \<le> Suc offset" using True by simp
    have b: "Suc offset - (cursor + 1) < 32" using "1.prems" by simp
    have "Suc offset - cursor = Suc (Suc offset - (cursor + 1))" using True by auto
    then have c: "drop_bit 1 hop_mask = push_bit (Suc offset - (cursor + 1)) 1"
      using "1.prems" drop_bit_push1[of "Suc offset - (cursor + 1)"] by simp
    from "1.IH"[OF True a b c] show ?thesis
      unfolding eq by auto
  next
    case False
    then have eq: "cursor_loop hs offset cursor hop_mask = cursor"
      by (subst cursor_loop.simps) auto
    show ?thesis
    proof (cases "cursor \<le> offset")
      case True
      then have "(ucast (hs ! cursor) :: 32 word) AND hop_mask \<noteq> 0" using False by simp
      then have "bit (hs ! cursor) (Suc offset - cursor)"
        using "1.prems" ucast_and_push1[of "Suc offset - cursor" "hs ! cursor"] by simp
      moreover have "Suc offset - cursor = offset - cursor + 1" using True by simp
      ultimately have "owns hs cursor offset" using True by (simp add: owns_def)
      then show ?thesis unfolding eq using "1.prems" by simp
    next
      case False
      then show ?thesis unfolding eq using "1.prems" by simp
    qed
  qed
qed

lemma offset_loop_spec:
  "lf \<le> offset \<Longrightarrow> offset \<le> idx \<Longrightarrow> idx - lf < 31 \<Longrightarrow>
   offset_loop hs lf idx offset = (off, cur) \<Longrightarrow>
   offset \<le> off \<and> off \<le> idx \<and> (off < idx \<longrightarrow> lf \<le> cur \<and> cur \<le> off \<and> owns hs cur off)"
proof (induction hs lf idx offset rule: offset_loop.induct)
  case (1 hs lf idx offset)
  let ?cursor = "cursor_loop hs offset lf (push_bit (offset - lf + 1) 1)"
  have cs: "lf \<le> ?cursor \<and> ?cursor \<le> Suc offset \<and> (?cursor \<le> offset \<longrightarrow> owns hs ?cursor offset)"
  proof (rule cursor_loop_spec)
    show "lf \<le> Suc offset" using "1.prems" by simp
    show "Suc offset - lf < 32" using "1.prems" by simp
    show "push_bit (offset - lf + 1) (1::32 word) = push_bit (Suc offset - lf) 1"
      using "1.prems" by (simp add: Suc_diff_le)
  qed
  show ?case
  proof (cases "offset < idx \<and> ?cursor > offset")
    case True
    then have eq: "offset_loop hs lf idx offset = offset_loop hs lf idx (offset + 1)"
      by (subst offset_loop.simps) (simp add: Let_def)
    have "offset \<le> off \<and> offset + 1 \<le> off \<and> off \<le> idx \<and>
        (off < idx \<longrightarrow> lf \<le> cur \<and> cur \<le> off \<and> owns hs cur off)"
      using "1.IH"[OF refl True] "1.prems" True eq by simp
    then show ?thesis by simp
  next
    case False
    then have eq: "offset_loop hs lf idx offset = (offset, ?cursor)"
      by (subst offset_loop.simps) (auto simp: Let_def)
    then have "off = offset" "cur = ?cursor" using "1.prems" by simp_all
    then show ?thesis using cs False "1.prems" by auto
  qed
qed

section \<open>Construction\<close>

lemma npot32_small:
  "npot32 0 = 0" "npot32 1 = 1" "npot32 8 = 8" "npot32 16 = 16" "npot32 32 = 32"
  by (simp_all add: npot32_def)




section \<open>\<^verbatim>\<open>Dict\<close> runs the algorithm of \<^verbatim>\<open>Set\<close> on its keys\<close>

lemma key_table_simps [simp]:
  "keys_m (key_table d) = keys_m d" "hops_m (key_table d) = hops_m d"
  "size_m (key_table d) = size_m d" "capacity_m (key_table d) = capacity_m d"
  by (simp_all add: key_table_def)

lemma key_table_bucket [simp]: "get_bucket_index H (key_table d) = get_bucket_index H d"
  by (rule ext) (simp add: get_bucket_index_def)

lemma key_table_end [simp]: "end_index (key_table d) = end_index d"
  by (simp add: end_index_def)

lemma key_table_find [simp]: "find_internal (key_table d) = find_internal d"
  by (intro ext) (simp add: find_internal_def)

lemma key_table_has [simp]: "has H (key_table d) = has H d"
  by (rule ext) (simp add: has_def)

lemma key_table_live [simp]: "live (key_table d) = live d"
  by (simp add: live_def)

lemma key_table_elements [simp]: "elements (key_table d) = elements d"
  by (rule ext) (simp add: elements_def)

lemma key_table_inv [simp]: "table_inv H (key_table d) = table_inv H d"
  by (rule ext) (simp add: table_inv_def)

lemma key_table_wf [simp]: "wf_table H (key_table d) = wf_table H d"
  by (simp add: wf_table_def)

lemma key_table_update [simp]:
  "key_table (d\<lparr>hops_m := hs\<rparr>) = (key_table d)\<lparr>hops_m := hs\<rparr>"
  "key_table (d\<lparr>keys_m := ks\<rparr>) = (key_table d)\<lparr>keys_m := ks\<rparr>"
  "key_table (d\<lparr>size_m := n\<rparr>) = (key_table d)\<lparr>size_m := n\<rparr>"
  "key_table (d\<lparr>values_m := vs\<rparr>) = key_table d"
  by (simp_all add: key_table_def)

lemma Set_displace_unfold:
  fixes s :: "('k, 'h::len) hop_base"
  assumes "lf = (if idx < hop_bucket TYPE('h) then 0 else idx - hop_bucket TYPE('h) + 1)"
    and "offset_loop (hops_m s) lf idx lf = (offset, cursor)"
  shows "Set_displace s b idx =
     (if idx > b + hop_bucket TYPE('h) - 1
      then (if offset \<ge> idx then Inr (s\<lparr>hops_m := (hops_m s)[idx := hops_m s ! idx XOR 1]\<rparr>)
            else Set_displace
                   (s\<lparr>keys_m := (keys_m s)[idx := keys_m s ! offset],
                      hops_m := ((hops_m s)[cursor := hops_m s ! cursor OR push_bit (idx - cursor + 1) 1])
                        [cursor := ((hops_m s)[cursor := hops_m s ! cursor OR push_bit (idx - cursor + 1) 1]) ! cursor
                                     XOR push_bit (offset - cursor + 1) 1]\<rparr>) b offset)
      else Inl (s, idx))"
  by (subst Set_displace.simps) (simp only: Let_def assms fst_conv snd_conv flip: assms(1))

lemma Dict_displace_unfold:
  fixes d :: "('k, 'v, 'h::len) dict"
  assumes "lf = (if idx < hop_bucket TYPE('h) then 0 else idx - hop_bucket TYPE('h) + 1)"
    and "offset_loop (hops_m d) lf idx lf = (offset, cursor)"
  shows "Dict_displace d b idx =
     (if idx > b + hop_bucket TYPE('h) - 1
      then (if offset \<ge> idx then Inr (d\<lparr>hops_m := (hops_m d)[idx := hops_m d ! idx XOR 1]\<rparr>)
            else Dict_displace
                   (d\<lparr>keys_m := (keys_m d)[idx := keys_m d ! offset],
                      hops_m := ((hops_m d)[cursor := hops_m d ! cursor OR push_bit (idx - cursor + 1) 1])
                        [cursor := ((hops_m d)[cursor := hops_m d ! cursor OR push_bit (idx - cursor + 1) 1]) ! cursor
                                     XOR push_bit (offset - cursor + 1) 1],
                      values_m := (values_m d)[idx := values_m d ! offset]\<rparr>) b offset)
      else Inl (d, idx))"
  by (subst Dict_displace.simps) (simp only: Let_def assms fst_conv snd_conv flip: assms(1))

lemma Dict_displace_key_table:
  fixes d :: "('k, 'v, 'c::len) dict"
  shows "map_sum (\<lambda>(d', i). (key_table d', i)) key_table (Dict_displace d b idx) =
   Set_displace (key_table d) b idx"
proof (induction idx arbitrary: d rule: less_induct)
  case (less idx)
  define lf where "lf = (if idx < hop_bucket TYPE('c) then 0 else idx - hop_bucket TYPE('c) + 1)"
  obtain offset cursor where oc: "offset_loop (hops_m d) lf idx lf = (offset, cursor)"
    by (cases "offset_loop (hops_m d) lf idx lf")
  have oc': "offset_loop (hops_m (key_table d)) lf idx lf = (offset, cursor)"
    using oc by simp
  note du = Dict_displace_unfold[OF lf_def oc, of b]
  note su = Set_displace_unfold[OF lf_def oc', of b]
  show ?case
  proof (cases "idx > b + hop_bucket TYPE('c) - 1 \<and> \<not> offset \<ge> idx")
    case False
    then show ?thesis unfolding du su by auto
  next
    case True
    then have "offset < idx" by simp
    from less[OF this] True show ?thesis
      unfolding du su by simp
  qed
qed

lemma Set_insert_body_unfold:
  fixes s :: "('k, 'h::len) hop_base"
  assumes "b = get_bucket_index H s k"
    and "pe = (if b + probe_max TYPE('h) > end_index s then end_index s
               else b + probe_max TYPE('h))"
    and "idx = probe_loop (hops_m s) pe b"
  shows "Set_insert_body H s k =
     (if find_internal s b k \<noteq> end_index s then Found (find_internal s b k)
      else if idx = pe then Grow s
      else (case Set_displace (s\<lparr>hops_m := (hops_m s)[idx := hops_m s ! idx OR 1]\<rparr>) b idx of
              Inr s' \<Rightarrow> Grow s'
            | Inl (s', idx') \<Rightarrow>
                Placed (s'\<lparr>keys_m := (keys_m s')[idx' := k],
                           hops_m := ((hops_m s')[idx' := hops_m s' ! idx' OR 1])
                              [b := ((hops_m s')[idx' := hops_m s' ! idx' OR 1]) ! b OR
                                    push_bit (idx' - b + 1) 1],
                           size_m := size_m s' + 1\<rparr>) idx'))"
  unfolding Set_insert_body_def assms Let_def by (rule refl)

lemma Dict_insert_body_unfold:
  fixes d :: "('k, 'v, 'h::len) dict"
  assumes "b = get_bucket_index H d k"
    and "pe = (if b + probe_max TYPE('h) > end_index d then end_index d
               else b + probe_max TYPE('h))"
    and "idx = probe_loop (hops_m d) pe b"
  shows "Dict_insert_body H d k v =
     (if find_internal d b k \<noteq> end_index d then Found (find_internal d b k)
      else if idx = pe then Grow d
      else (case Dict_displace (d\<lparr>hops_m := (hops_m d)[idx := hops_m d ! idx OR 1]\<rparr>) b idx of
              Inr d' \<Rightarrow> Grow d'
            | Inl (d', idx') \<Rightarrow>
                Placed (d'\<lparr>keys_m := (keys_m d')[idx' := k],
                           hops_m := ((hops_m d')[idx' := hops_m d' ! idx' OR 1])
                              [b := ((hops_m d')[idx' := hops_m d' ! idx' OR 1]) ! b OR
                                    push_bit (idx' - b + 1) 1],
                           size_m := size_m d' + 1,
                           values_m := (values_m d')[idx' := v]\<rparr>) idx'))"
  unfolding Dict_insert_body_def assms Let_def by (rule refl)

lemma Dict_insert_body_key_table:
  fixes d :: "('k, 'v, 'h::len) dict"
  shows "map_attempt key_table (Dict_insert_body H d k v) = Set_insert_body H (key_table d) k"
proof -
  define b where "b = get_bucket_index H d k"
  define pe where "pe = (if b + probe_max TYPE('h) > end_index d then end_index d
               else b + probe_max TYPE('h))"
  define idx where "idx = probe_loop (hops_m d) pe b"
  define d1 where "d1 = d\<lparr>hops_m := (hops_m d)[idx := hops_m d ! idx OR 1]\<rparr>"
  have du: "Dict_insert_body H d k v = (if find_internal d b k \<noteq> end_index d then Found (find_internal d b k)
      else if idx = pe then Grow d
      else (case Dict_displace d1 b idx of
              Inr d' \<Rightarrow> Grow d'
            | Inl (d', idx') \<Rightarrow>
                Placed (d'\<lparr>keys_m := (keys_m d')[idx' := k],
                           hops_m := ((hops_m d')[idx' := hops_m d' ! idx' OR 1])
                              [b := ((hops_m d')[idx' := hops_m d' ! idx' OR 1]) ! b OR
                                    push_bit (idx' - b + 1) 1],
                           size_m := size_m d' + 1,
                           values_m := (values_m d')[idx' := v]\<rparr>) idx'))"
    unfolding d1_def by (rule Dict_insert_body_unfold[OF b_def pe_def idx_def])
  have su: "Set_insert_body H (key_table d) k =
     (if find_internal d b k \<noteq> end_index d then Found (find_internal d b k)
      else if idx = pe then Grow (key_table d)
      else (case Set_displace (key_table d1) b idx of
              Inr s' \<Rightarrow> Grow s'
            | Inl (s', idx') \<Rightarrow>
                Placed (s'\<lparr>keys_m := (keys_m s')[idx' := k],
                           hops_m := ((hops_m s')[idx' := hops_m s' ! idx' OR 1])
                              [b := ((hops_m s')[idx' := hops_m s' ! idx' OR 1]) ! b OR
                                    push_bit (idx' - b + 1) 1],
                           size_m := size_m s' + 1\<rparr>) idx'))"
    using Set_insert_body_unfold[of b H "key_table d" k pe idx]
    by (simp add: b_def pe_def idx_def d1_def)
  show ?thesis
  proof (cases "find_internal d b k \<noteq> end_index d \<or> idx = pe")
    case True
    then show ?thesis unfolding du su by auto
  next
    case False
    show ?thesis
    proof (cases "Dict_displace d1 b idx")
      case (Inl p)
      obtain d' i' where p: "p = (d', i')" by (cases p)
      have "Set_displace (key_table d1) b idx = Inl (key_table d', i')"
        using Dict_displace_key_table[of d1 b idx] Inl p by simp
      with Inl p False show ?thesis unfolding du su by simp
    next
      case (Inr d')
      have "Set_displace (key_table d1) b idx = Inr (key_table d')"
        using Dict_displace_key_table[of d1 b idx] Inr by simp
      with Inr False show ?thesis unfolding du su by simp
    qed
  qed
qed

lemma Dict_reinsert_key_table:
  assumes "\<And>d k v. map_option (\<lambda>(i, d'). key_table d') (ins_d d k v) =
      map_option snd (ins_s (key_table d) k)"
  shows "map_option key_table (Dict_reinsert ins_d ok ov oh iters d) =
     Set_reinsert ins_s ok oh iters (key_table d)"
proof (induction iters arbitrary: d)
  case Nil
  show ?case by simp
next
  case (Cons iter iters)
  note rel = assms[of d "ok ! iter" "ov ! iter"]
  show ?case
  proof (cases "occupied oh iter")
    case False
    then show ?thesis using Cons[of d] by simp
  next
    case True
    show ?thesis
    proof (cases "ins_d d (ok ! iter) (ov ! iter)")
      case None
      then have "map_option snd (ins_s (key_table d) (ok ! iter)) = None"
        using rel by simp
      then have "ins_s (key_table d) (ok ! iter) = None"
        by simp
      with None True show ?thesis by simp
    next
      case (Some r)
      obtain i d' where r: "r = (i, d')" by (cases r)
      have "map_option snd (ins_s (key_table d) (ok ! iter)) = Some (key_table d')"
        using rel unfolding Some r by simp
      then obtain q where q: "ins_s (key_table d) (ok ! iter) = Some q" "snd q = key_table d'"
        by (cases "ins_s (key_table d) (ok ! iter)") simp_all
      obtain b where b: "q = (b, key_table d')" using q(2) by (cases q) simp
      have l: "Dict_reinsert ins_d ok ov oh (iter # iters) d = Dict_reinsert ins_d ok ov oh iters d'"
        using True Some r by simp
      have r: "Set_reinsert ins_s ok oh (iter # iters) (key_table d) =
          Set_reinsert ins_s ok oh iters (key_table d')"
        using True q(1) b by simp
      show ?thesis unfolding l r by (rule Cons)
    qed
  qed
qed

lemma Dict_insert_key_table:
  fixes d :: "('k::zero, 'v::zero, 'h::len) dict"
  shows "map_option (\<lambda>(i, d'). key_table d') (Dict_insert n H d k v) =
   map_option snd (Set_insert n H (key_table d) k)"
proof (induction n arbitrary: d k v)
  case 0
  show ?case by simp
next
  case (Suc n)
  have ex: "map_option key_table (Dict_expand_with (Dict_insert n H) d0) =
      Set_expand_with (Set_insert n H) (key_table d0)" for d0 :: "('k, 'v, 'h) dict"
  proof -
    let ?n = "unat (capacity_m d0 * 2 + of_nat (hop_bucket TYPE('h)))"
    let ?d = "\<lparr> keys_m = replicate ?n (0::'k), hops_m = replicate ?n (0::'h word),
        size_m = 0, capacity_m = capacity_m d0 * 2, values_m = replicate ?n (0::'v) \<rparr>"
    let ?s = "\<lparr> keys_m = replicate ?n (0::'k), hops_m = replicate ?n (0::'h word),
        size_m = 0, capacity_m = capacity_m d0 * 2 \<rparr>"
    let ?it = "[0 ..< unat (capacity_m d0 + of_nat (hop_bucket TYPE('h)))]"
    have kt: "key_table ?d = ?s" by (simp add: key_table_def)
    have "map_option key_table
        (Dict_reinsert (Dict_insert n H) (keys_m d0) (values_m d0) (hops_m d0) ?it ?d) =
        Set_reinsert (Set_insert n H) (keys_m d0) (hops_m d0) ?it (key_table ?d)"
      by (rule Dict_reinsert_key_table) (rule Suc)
    then show ?thesis
      unfolding Dict_expand_with_def Set_expand_with_def Let_def kt by simp
  qed
  show ?case
  proof (cases "Dict_insert_body H d k v")
    case (Found i)
    then have "Set_insert_body H (key_table d) k = Found i"
      using Dict_insert_body_key_table[of H d k v] by simp
    with Found show ?thesis by simp
  next
    case (Placed d' i)
    then have "Set_insert_body H (key_table d) k = Placed (key_table d') i"
      using Dict_insert_body_key_table[of H d k v] by simp
    with Placed show ?thesis by simp
  next
    case (Grow d')
    then have g: "Set_insert_body H (key_table d) k = Grow (key_table d')"
      using Dict_insert_body_key_table[of H d k v] by simp
    show ?thesis
    proof (cases "Dict_expand_with (Dict_insert n H) d'")
      case None
      then have "Set_expand_with (Set_insert n H) (key_table d') = None"
        using ex[of d'] by simp
      with None Grow g show ?thesis by simp
    next
      case (Some d'')
      then have "Set_expand_with (Set_insert n H) (key_table d') = Some (key_table d'')"
        using ex[of d'] by simp
      with Some Grow g Suc[of d'' k v] show ?thesis by simp
    qed
  qed
qed

lemma Dict_insert_Some_key_table:
  assumes "Dict_insert n H d k v = Some (i, d')"
  shows "\<exists>b. Set_insert n H (key_table d) k = Some (b, key_table d')"
proof -
  have "map_option snd (Set_insert n H (key_table d) k) = Some (key_table d')"
    unfolding Dict_insert_key_table[of n H d k v, symmetric] assms by simp
  then obtain q where q: "Set_insert n H (key_table d) k = Some q" "snd q = key_table d'"
    by (cases "Set_insert n H (key_table d) k") simp_all
  then have "Set_insert n H (key_table d) k = Some (fst q, key_table d')"
    by (cases q) simp
  then show ?thesis ..
qed

lemma Dict_erase_key_table:
  "fst (Dict_erase H d k) = fst (Set_remove H (key_table d) k)"
  "key_table (snd (Dict_erase H d k)) = snd (Set_remove H (key_table d) k)"
  by (simp_all add: Dict_erase_def Set_remove_def Let_def)

lemma Dict_init_key_table:
  "key_table (Dict_new n) = Set_new n" "key_table Dict_default = Set_default"
  by (simp_all add: Dict_default_def Set_default_def Dict_new_def Set_new_def
      Dict_init_internal_def Set_init_internal_def Let_def key_table_def)

section \<open>Lookup\<close>

lemma table_8_reached: "Set_insert 1 ident_hash Set_default 8 = Some (True, table_8)"
  by code_simp

text \<open>
  Claim C9, as stated, on the set of hop size 8 holding the key 8 (home bucket 0): the
  word at home is 3, so the one displacement bit set is bit 1, and the slot \<open>home + 1\<close>
  does not hold 8; the claim has the lookup of 8 fail, and \<^verbatim>\<open>find_internal\<close> returns
  slot 0.
\<close>

theorem find_internal_slot_counterexample:
  "hops_m table_8 ! 0 = 3 \<and>
   keys_m table_8 ! (0 + 1) \<noteq> 8 \<and>
   find_internal table_8 0 8 = 0 \<and>
   find_internal table_8 0 8 \<noteq> end_index table_8"
proof -
  have f: "find_internal table_8 0 8 = 0" by code_simp
  have e: "end_index table_8 = 15" by code_simp
  have b: "hops_m table_8 ! 0 = 3" by (simp add: table_8_def)
  have k: "keys_m table_8 ! (0 + 1) \<noteq> 8" by (simp add: table_8_def)
  show ?thesis
    using f e b k by (intro conjI) simp_all
qed

text \<open>
  Claim C9, amended: the slot examined for the set displacement bit \<open>k\<close> is
  \<open>home + k - 1\<close>.  Either no set bit \<open>k\<close> in \<open>1..hop_bucket\<close> has the searched key at
  slot \<open>home + k - 1\<close> and the result is the end index \<^verbatim>\<open>capacity_ + hop_bucket\<close>, or the
  result is \<open>home + k - 1\<close> for the least such \<open>k\<close>.
\<close>

theorem find_internal_scan:
  fixes s :: "('k, 'h::len, 'z) hop_base_scheme"
  shows
  "(find_internal s home key = end_index s \<and>
      (\<forall>k. 1 \<le> k \<and> k \<le> hop_bucket TYPE('h) \<and> bit (hops_m s ! home) k \<longrightarrow>
         keys_m s ! (home + k - 1) \<noteq> key)) \<or>
   (\<exists>k. 1 \<le> k \<and> k \<le> hop_bucket TYPE('h) \<and> bit (hops_m s ! home) k \<and>
        keys_m s ! (home + k - 1) = key \<and>
        find_internal s home key = home + k - 1 \<and>
        (\<forall>k'. 1 \<le> k' \<and> k' < k \<longrightarrow>
           \<not> (bit (hops_m s ! home) k' \<and> keys_m s ! (home + k' - 1) = key)))"
proof -
  let ?w = "hops_m s ! home"
  let ?hs = "drop_bit 1 ?w"
  have bd: "\<And>j. bit (drop_bit (Suc 0) ?w) j = bit ?w (Suc j)"
    by (simp add: bit_drop_bit_eq)
  have fi: "find_internal s home key = find_loop (keys_m s) ?hs home key (end_index s)"
    by (simp add: find_internal_def)
  from find_loop_spec[of "keys_m s" ?hs home key "end_index s"]
  consider (none) "find_loop (keys_m s) ?hs home key (end_index s) = end_index s"
      "\<forall>j. bit ?hs j \<longrightarrow> keys_m s ! (home + j) \<noteq> key"
    | (some) j where "bit ?hs j" "keys_m s ! (home + j) = key"
      "find_loop (keys_m s) ?hs home key (end_index s) = home + j"
      "\<forall>j'<j. \<not> (bit ?hs j' \<and> keys_m s ! (home + j') = key)"
    by blast
  then show ?thesis
  proof cases
    case none
    have "\<forall>k. 1 \<le> k \<and> k \<le> hop_bucket TYPE('h) \<and> bit ?w k \<longrightarrow> keys_m s ! (home + k - 1) \<noteq> key"
    proof (intro allI impI)
      fix k assume k: "1 \<le> k \<and> k \<le> hop_bucket TYPE('h) \<and> bit ?w k"
      then obtain j where j: "k = Suc j" by (cases k) auto
      with k none(2) show "keys_m s ! (home + k - 1) \<noteq> key"
        by (simp add: bd)
    qed
    with none(1) fi show ?thesis by simp
  next
    case some
    have b: "bit ?w (Suc j)" using some(1) by (simp add: bd)
    then have "Suc j < LENGTH('h)" by (rule bit_imp_le_length)
    then have le: "Suc j \<le> hop_bucket TYPE('h)" by (simp add: hop_bucket_def)
    have min: "\<forall>k'. 1 \<le> k' \<and> k' < Suc j \<longrightarrow>
        \<not> (bit ?w k' \<and> keys_m s ! (home + k' - 1) = key)"
    proof (intro allI impI)
      fix k' assume k': "1 \<le> k' \<and> k' < Suc j"
      then obtain j' where j': "k' = Suc j'" by (cases k') auto
      with k' some(4) show "\<not> (bit ?w k' \<and> keys_m s ! (home + k' - 1) = key)"
        by (simp add: bd)
    qed
    have "1 \<le> Suc j \<and> Suc j \<le> hop_bucket TYPE('h) \<and> bit ?w (Suc j) \<and>
        keys_m s ! (home + Suc j - 1) = key \<and>
        find_internal s home key = home + Suc j - 1"
      using le b some(2,3) fi by simp
    with min show ?thesis by blast
  qed
qed

theorem find_internal_scan_witness:
  "bit (hops_m table_8 ! 0) 1 \<and> keys_m table_8 ! (0 + 1 - 1) = 8 \<and>
   find_internal table_8 0 8 = 0 + 1 - 1"
proof -
  have b: "bit (hops_m table_8 ! 0) 1"
    by code_simp
  have k: "keys_m table_8 ! (0 + 1 - 1) = 8"
    by (simp add: table_8_def)
  have e: "end_index table_8 = 15" by code_simp
  from find_internal_scan[of table_8 0 8]
  consider (none) "\<forall>k. 1 \<le> k \<and> k \<le> hop_bucket TYPE(8) \<and> bit (hops_m table_8 ! 0) k \<longrightarrow>
         keys_m table_8 ! (0 + k - 1) \<noteq> 8"
    | (some) k where "1 \<le> k" "find_internal table_8 0 8 = 0 + k - 1"
        "\<forall>k'. 1 \<le> k' \<and> k' < k \<longrightarrow>
           \<not> (bit (hops_m table_8 ! 0) k' \<and> keys_m table_8 ! (0 + k' - 1) = 8)"
    by blast
  then have "find_internal table_8 0 8 = 0 + 1 - 1"
  proof cases
    case none
    from none[rule_format, of 1] have "keys_m table_8 ! (0 + 1 - 1) \<noteq> 8"
      using b by (simp add: hop_bucket_def)
    with k show ?thesis by simp
  next
    case some
    have "\<not> 1 < k" using some(3) b k by auto
    with some(1) have "k = 1" by simp
    with some(2) show ?thesis by simp
  qed
  with b k show ?thesis by simp
qed

section \<open>Serialisation\<close>

text \<open>
  Claim C6 on \<open>table_8\<close>, the set of hop size 8 holding the key 8.  \<open>Set_save\<close> writes
  the size, the capacity, the 15 hop words and the 15 keys, in this order; \<open>Set_load\<close>
  reads the cells after the capacity as 15 keys followed by 15 hop words, so the table
  it builds has the hop words of \<open>table_8\<close> as keys and its keys as hop words, and the
  key 8 is not found in it.
\<close>

theorem save_then_load_exchanges_buffers:
  "Set_save cell_serialiser table_8 =
     [1, 8] @ map ucast (hops_m table_8) @ keys_m table_8 \<and>
   Set_load cell_serialiser (Set_save cell_serialiser table_8) = Some table_8_reloaded \<and>
   keys_m table_8_reloaded \<noteq> keys_m table_8 \<and>
   hops_m table_8_reloaded \<noteq> hops_m table_8 \<and>
   has ident_hash table_8 8 \<and> \<not> has ident_hash table_8_reloaded 8"
proof -
  have a: "Set_save cell_serialiser table_8 = [1, 8] @ map ucast (hops_m table_8) @ keys_m table_8"
    by code_simp
  have b: "Set_load cell_serialiser (Set_save cell_serialiser table_8) = Some table_8_reloaded"
    by code_simp
  have c: "keys_m table_8_reloaded \<noteq> keys_m table_8"
    by (simp add: table_8_def table_8_reloaded_def)
  have d: "hops_m table_8_reloaded \<noteq> hops_m table_8"
    by (simp add: table_8_def table_8_reloaded_def)
  have e: "has ident_hash table_8 8" by code_simp
  have f: "\<not> has ident_hash table_8_reloaded 8" by code_simp
  show ?thesis using a b c d e f by (intro conjI)
qed

section \<open>Clearing\<close>

lemma table_32_reached: "Set_insert 1 ident_hash Set_default 20 = Some (True, table_32)"
  by code_simp

text \<open>
  Claim C7 on \<open>table_32\<close>, the set of hop size 32 and capacity 32 holding the key 20:
  \<^verbatim>\<open>clear()\<close> zeroes 63 bytes of the 63 hop words of four bytes each, the word of slot
  20 keeps its value 3, and the key 20 is still found although the size is 0.
\<close>

theorem clear_leaves_hop_words:
  "size_m (Set_clear table_32) = 0 \<and>
   capacity_m (Set_clear table_32) = capacity_m table_32 \<and>
   hops_m (Set_clear table_32) ! 20 = 3 \<and>
   has ident_hash (Set_clear table_32) 20"
proof -
  have a: "size_m (Set_clear table_32) = 0"
    by (simp add: Set_clear_def Set_clear_internal_def)
  have b: "capacity_m (Set_clear table_32) = capacity_m table_32"
    by (simp add: Set_clear_def Set_clear_internal_def)
  have c: "hops_m (Set_clear table_32) ! 20 = 3" by code_simp
  have d: "has ident_hash (Set_clear table_32) 20" by code_simp
  show ?thesis using a b c d by (intro conjI)
qed

section \<open>\<^verbatim>\<open>npot32\<close> rounds up to a power of two\<close>

lemma smeared_base: "smeared 1 v v"
  by (simp add: smeared_def)

lemma smeared_step:
  assumes "smeared d v x"
  shows "smeared (2 * d) v (x OR drop_bit d x)"
  unfolding smeared_def
proof (intro allI iffI)
  fix i
  assume "bit (x OR drop_bit d x) i"
  then consider "bit x i" | "bit x (d + i)"
    by (auto simp: bit_or_iff bit_drop_bit_eq)
  then show "\<exists>e<2 * d. bit v (i + e)"
  proof cases
    case 1
    then obtain e where "e < d" "bit v (i + e)" using assms by (auto simp: smeared_def)
    then show ?thesis by (intro exI[of _ e]) simp
  next
    case 2
    then obtain e where "e < d" "bit v (d + i + e)" using assms by (auto simp: smeared_def)
    then show ?thesis by (intro exI[of _ "d + e"]) (simp add: ac_simps)
  qed
next
  fix i
  assume "\<exists>e<2 * d. bit v (i + e)"
  then obtain e where e: "e < 2 * d" "bit v (i + e)" by blast
  have i32: "i < 32" using e(2) bit_imp_le_length[of v "i + e"] by simp
  show "bit (x OR drop_bit d x) i"
  proof (cases "e < d")
    case True
    then have "bit x i" using assms e by (auto simp: smeared_def)
    then show ?thesis by (simp add: bit_or_iff)
  next
    case False
    then have "e - d < d" "bit v (d + i + (e - d))" using e by (simp_all add: ac_simps)
    then have "bit x (d + i)" using assms by (auto simp: smeared_def)
    then show ?thesis using i32 by (simp add: bit_or_iff bit_drop_bit_eq)
  qed
qed

lemma npot32_smeared:
  "\<exists>x. smeared 32 (n - 1) x \<and> npot32 n = x + 1"
proof -
  let ?v = "n - 1"
  let ?x1 = "?v OR drop_bit 1 ?v"
  let ?x2 = "?x1 OR drop_bit 2 ?x1"
  let ?x3 = "?x2 OR drop_bit 4 ?x2"
  let ?x4 = "?x3 OR drop_bit 8 ?x3"
  let ?x5 = "?x4 OR drop_bit 16 ?x4"
  have "smeared 2 ?v ?x1" using smeared_step[OF smeared_base[of ?v]] by simp
  then have "smeared 4 ?v ?x2" using smeared_step[of 2 ?v ?x1] by simp
  then have "smeared 8 ?v ?x3" using smeared_step[of 4 ?v ?x2] by simp
  then have "smeared 16 ?v ?x4" using smeared_step[of 8 ?v ?x3] by simp
  then have "smeared 32 ?v ?x5" using smeared_step[of 16 ?v ?x4] by simp
  moreover have "npot32 n = ?x5 + 1" by (simp add: npot32_def Let_def)
  ultimately show ?thesis by blast
qed

lemma smeared_32_mask:
  assumes "smeared 32 v x"
  shows "\<exists>k\<le>32. x = mask k \<and> (\<forall>j. bit v j \<longrightarrow> j < k) \<and> (0 < k \<longrightarrow> bit v (k - 1))"
proof -
  have ch: "\<And>i. bit x i \<longleftrightarrow> (\<exists>j\<ge>i. bit v j)"
  proof
    fix i assume "bit x i"
    then obtain e where "bit v (i + e)" using assms by (auto simp: smeared_def)
    then show "\<exists>j\<ge>i. bit v j" by (intro exI[of _ "i + e"]) simp
  next
    fix i assume "\<exists>j\<ge>i. bit v j"
    then obtain j where j: "i \<le> j" "bit v j" by blast
    have "j < 32" using j(2) bit_imp_le_length[of v j] by simp
    then have "j - i < 32" "bit v (i + (j - i))" using j by simp_all
    then show "bit x i" using assms unfolding smeared_def by blast
  qed
  define k where "k = (LEAST i. \<not> bit x i)"
  have n32: "\<not> bit x 32" using bit_imp_le_length[of x 32] by auto
  have nk: "\<not> bit x k" unfolding k_def using n32 by (rule LeastI)
  have k32: "k \<le> 32" unfolding k_def using n32 by (rule Least_le)
  have lt: "\<And>i. i < k \<Longrightarrow> bit x i" unfolding k_def using not_less_Least by blast
  have iff: "\<And>i. bit x i \<longleftrightarrow> i < k"
  proof
    fix i assume b: "bit x i"
    show "i < k"
    proof (rule ccontr)
      assume "\<not> i < k"
      then have "k \<le> i" by simp
      moreover obtain j where "i \<le> j" "bit v j" using b ch by blast
      ultimately have "\<exists>j\<ge>k. bit v j" by (intro exI[of _ j]) simp
      then have "bit x k" using ch by blast
      with nk show False by simp
    qed
  qed (rule lt)
  have "x = mask k"
    by (rule bit_word_eqI) (auto simp: iff bit_mask_iff)
  moreover have "\<forall>j. bit v j \<longrightarrow> j < k"
    using ch iff by blast
  moreover have "0 < k \<longrightarrow> bit v (k - 1)"
  proof
    assume "0 < k"
    then have "bit x (k - 1)" using lt by simp
    then obtain j where j: "k - 1 \<le> j" "bit v j" using ch by blast
    then have "j < k" using ch iff by blast
    with j \<open>0 < k\<close> have "j = k - 1" by simp
    with j show "bit v (k - 1)" by simp
  qed
  ultimately show ?thesis using k32 by blast
qed

lemma nat_bits_below: "(\<forall>j. bit (u::nat) j \<longrightarrow> j < k) \<Longrightarrow> u < 2 ^ k"
proof -
  assume a: "\<forall>j. bit u j \<longrightarrow> j < k"
  have "take_bit k u = u"
    by (rule bit_eqI) (use a in \<open>auto simp: bit_take_bit_iff\<close>)
  then show ?thesis by (simp add: take_bit_nat_eq_self_iff)
qed

lemma nat_bit_ge: "bit (u::nat) j \<Longrightarrow> 2 ^ j \<le> u"
proof (rule ccontr)
  assume b: "bit u j" and "\<not> 2 ^ j \<le> u"
  then have "u < 2 ^ j" by simp
  then have "take_bit j u = u" by (simp add: take_bit_nat_eq_self_iff)
  then have "bit u j = bit (take_bit j u) j" by simp
  then show False using b by (simp add: bit_take_bit_iff)
qed

lemma bit_unat_word: "bit (unat (w :: 'a::len word)) j = bit w j"
  by (simp add: bit_unsigned_iff)

lemma npot32_spec:
  assumes n1: "1 \<le> unat n" and n2: "unat n \<le> 2 ^ 31"
  shows "\<exists>k\<le>31. npot32 n = 2 ^ k \<and> unat n \<le> 2 ^ k \<and> (k = 0 \<or> 2 ^ (k - 1) < unat n)"
proof -
  let ?v = "n - 1"
  obtain x where x: "smeared 32 ?v x" "npot32 n = x + 1"
    using npot32_smeared by blast
  obtain k where k: "k \<le> 32" "x = mask k" "\<forall>j. bit ?v j \<longrightarrow> j < k" "0 < k \<longrightarrow> bit ?v (k - 1)"
    using smeared_32_mask[OF x(1)] by blast
  have nz: "n \<noteq> 0" using n1 by auto
  have uv: "unat ?v = unat n - 1" using nz by (rule unat_minus_one)
  have "unat ?v < 2 ^ 31" using uv n1 n2 by simp
  then have "\<not> bit (unat ?v) 31"
    using nat_bit_ge[of "unat ?v" 31] by auto
  then have "\<not> bit ?v 31" by (simp add: bit_unat_word)
  have k31: "k \<le> 31"
  proof (rule ccontr)
    assume "\<not> k \<le> 31"
    then have "k = 32" using k(1) by simp
    then have "bit ?v 31" using k(4) by simp
    with \<open>\<not> bit ?v 31\<close> show False by simp
  qed
  have p: "npot32 n = 2 ^ k"
    using x(2) k(2) by (simp add: mask_eq_decr_exp)
  have "\<forall>j. bit (unat ?v) j \<longrightarrow> j < k" using k(3) by (simp add: bit_unat_word)
  then have "unat ?v < 2 ^ k" by (rule nat_bits_below)
  then have le: "unat n \<le> 2 ^ k" using uv by simp
  have "k = 0 \<or> 2 ^ (k - 1) < unat n"
  proof (cases "k = 0")
    case False
    then have "bit (unat ?v) (k - 1)" using k(4) by (simp add: bit_unat_word)
    then have "2 ^ (k - 1) \<le> unat ?v" by (rule nat_bit_ge)
    then have "2 ^ (k - 1) < unat n" using uv n1 by linarith
    then show ?thesis by simp
  qed simp
  with k31 p le show ?thesis by blast
qed

section \<open>Steps of the algorithm on the two buffers\<close>

declare push_bit_of_1 [simp del]

lemma owns_or_push:
  "c < length hs \<Longrightarrow>
   owns (hs[c := hs ! c OR push_bit n 1]) h i \<longleftrightarrow>
     owns hs h i \<or> (h = c \<and> c \<le> i \<and> i + 1 = c + n \<and> n < LENGTH('h))"
  for hs :: "'h::len word list"
  unfolding owns_update by (auto simp: bit_or_push1 owns_def)

lemma owns_xor_push:
  "c < length hs \<Longrightarrow>
   owns (hs[c := hs ! c XOR push_bit n 1]) h i \<longleftrightarrow>
     (owns hs h i \<noteq> (h = c \<and> c \<le> i \<and> i + 1 = c + n \<and> n < LENGTH('h)))"
  for hs :: "'h::len word list"
  unfolding owns_update by (auto simp: bit_xor_push1 owns_def)

lemma owns_or_1: "owns (hs[c := hs ! c OR 1]) h i \<longleftrightarrow> owns hs h i"
  unfolding owns_update by (auto simp: bit_or_1 owns_def)

lemma owns_xor_1: "owns (hs[c := hs ! c XOR 1]) h i \<longleftrightarrow> owns hs h i"
  unfolding owns_update by (auto simp: bit_xor_1 owns_def)

lemma occupied_or_push:
  "1 \<le> n \<Longrightarrow> occupied (hs[c := hs ! c OR push_bit n 1]) i \<longleftrightarrow> occupied hs i"
  unfolding occupied_update by (auto simp: bit_or_push1 occupied_iff)

lemma occupied_xor_push:
  "1 \<le> n \<Longrightarrow> occupied (hs[c := hs ! c XOR push_bit n 1]) i \<longleftrightarrow> occupied hs i"
  unfolding occupied_update by (auto simp: bit_xor_push1 occupied_iff)

lemma occupied_or_1:
  "c < length hs \<Longrightarrow> occupied (hs[c := hs ! c OR 1]) i \<longleftrightarrow> occupied hs i \<or> i = c"
  unfolding occupied_update by (auto simp: bit_or_1 occupied_iff)

lemma occupied_xor_1:
  "c < length hs \<Longrightarrow> occupied (hs[c := hs ! c XOR 1]) i \<longleftrightarrow> (occupied hs i \<noteq> (i = c))"
  unfolding occupied_update by (auto simp: bit_xor_1 occupied_iff)

lemma slots_invD:
  assumes "slots_inv E B ks hs R"
  shows "length ks = E" "length hs = E"
    and "\<And>h i. h < E \<Longrightarrow> owns hs h i \<Longrightarrow> i < E \<and> occupied hs i \<and> i \<notin> R \<and> B (ks ! i) = h"
    and "\<And>i. i < E \<Longrightarrow> occupied hs i \<Longrightarrow> i \<notin> R \<Longrightarrow> owns hs (B (ks ! i)) i"
    and "\<And>i j. i < E \<Longrightarrow> j < E \<Longrightarrow> occupied hs i \<Longrightarrow> occupied hs j \<Longrightarrow> i \<notin> R \<Longrightarrow> j \<notin> R \<Longrightarrow>
        ks ! i = ks ! j \<Longrightarrow> i = j"
    and "\<And>i. i \<in> R \<Longrightarrow> i < E \<and> occupied hs i"
  using assms unfolding slots_inv_def by blast+

lemma slots_invI:
  assumes "length ks = E" "length hs = E"
    and "\<And>h i. h < E \<Longrightarrow> owns hs h i \<Longrightarrow> i < E \<and> occupied hs i \<and> i \<notin> R \<and> B (ks ! i) = h"
    and "\<And>i. i < E \<Longrightarrow> occupied hs i \<Longrightarrow> i \<notin> R \<Longrightarrow> owns hs (B (ks ! i)) i"
    and "\<And>i j. i < E \<Longrightarrow> j < E \<Longrightarrow> occupied hs i \<Longrightarrow> occupied hs j \<Longrightarrow> i \<notin> R \<Longrightarrow> j \<notin> R \<Longrightarrow>
        ks ! i = ks ! j \<Longrightarrow> i = j"
    and "\<And>i. i \<in> R \<Longrightarrow> i < E \<and> occupied hs i"
  shows "slots_inv E B ks hs R"
  unfolding slots_inv_def using assms by blast

lemma slots_reserve:
  assumes inv: "slots_inv E B ks hs {}" and idx: "idx < E" and free: "\<not> occupied hs idx"
  shows "slots_inv E B ks (hs[idx := hs ! idx OR 1]) {idx}"
proof -
  note d = slots_invD[OF inv]
  have len: "idx < length hs" using idx d(2) by simp
  show ?thesis
  proof (rule slots_invI)
    show "length ks = E" by (rule d(1))
    show "length (hs[idx := hs ! idx OR 1]) = E" using d(2) by simp
  next
    fix h i assume "h < E" "owns (hs[idx := hs ! idx OR 1]) h i"
    then have "i < E \<and> occupied hs i \<and> B (ks ! i) = h"
      using d(3)[of h i] by (simp add: owns_or_1)
    moreover from this have "i \<noteq> idx" using free by auto
    ultimately show "i < E \<and> occupied (hs[idx := hs ! idx OR 1]) i \<and> i \<notin> {idx} \<and> B (ks ! i) = h"
      by (simp add: occupied_or_1[OF len])
  next
    fix i assume "i < E" "occupied (hs[idx := hs ! idx OR 1]) i" "i \<notin> {idx}"
    then show "owns (hs[idx := hs ! idx OR 1]) (B (ks ! i)) i"
      using d(4)[of i] by (simp add: occupied_or_1[OF len] owns_or_1)
  next
    fix i j
    assume "i < E" "j < E" "occupied (hs[idx := hs ! idx OR 1]) i"
      "occupied (hs[idx := hs ! idx OR 1]) j" "i \<notin> {idx}" "j \<notin> {idx}" "ks ! i = ks ! j"
    then show "i = j"
      using d(5)[of i j] by (simp add: occupied_or_1[OF len])
  next
    fix i assume "i \<in> {idx}"
    then show "i < E \<and> occupied (hs[idx := hs ! idx OR 1]) i"
      using idx by (simp add: occupied_or_1[OF len])
  qed
qed

lemma slots_unreserve:
  assumes inv: "slots_inv E B ks hs {idx}"
  shows "slots_inv E B ks (hs[idx := hs ! idx XOR 1]) {}"
proof -
  note d = slots_invD[OF inv]
  have idx: "idx < E" "occupied hs idx" using d(6)[of idx] by simp_all
  have len: "idx < length hs" using idx d(2) by simp
  show ?thesis
  proof (rule slots_invI)
    show "length ks = E" by (rule d(1))
    show "length (hs[idx := hs ! idx XOR 1]) = E" using d(2) by simp
  next
    fix h i assume "h < E" "owns (hs[idx := hs ! idx XOR 1]) h i"
    then have "i < E \<and> occupied hs i \<and> i \<notin> {idx} \<and> B (ks ! i) = h"
      using d(3)[of h i] by (simp add: owns_xor_1)
    then show "i < E \<and> occupied (hs[idx := hs ! idx XOR 1]) i \<and> i \<notin> {} \<and> B (ks ! i) = h"
      by (simp add: occupied_xor_1[OF len])
  next
    fix i assume "i < E" "occupied (hs[idx := hs ! idx XOR 1]) i" "i \<notin> {}"
    then have "occupied hs i" "i \<noteq> idx"
      using idx(2) by (auto simp: occupied_xor_1[OF len])
    then show "owns (hs[idx := hs ! idx XOR 1]) (B (ks ! i)) i"
      using d(4)[of i] \<open>i < E\<close> by (simp add: owns_xor_1)
  next
    fix i j
    assume a: "i < E" "j < E" "occupied (hs[idx := hs ! idx XOR 1]) i"
      "occupied (hs[idx := hs ! idx XOR 1]) j" "ks ! i = ks ! j"
    then have "occupied hs i" "i \<noteq> idx" "occupied hs j" "j \<noteq> idx"
      using idx(2) by (auto simp: occupied_xor_1[OF len])
    then show "i = j"
      using d(5)[of i j] a by simp
  next
    fix i :: nat assume "i \<in> {}"
    then show "i < E \<and> occupied (hs[idx := hs ! idx XOR 1]) i" by simp
  qed
qed

lemma slots_move:
  fixes hs :: "'h::len word list"
  assumes inv: "slots_inv E B ks hs {idx}"
    and lt: "offset < idx" and co: "cursor \<le> offset" and own: "owns hs cursor offset"
    and near: "idx - cursor + 1 < LENGTH('h)"
  defines "h1 \<equiv> hs[cursor := hs ! cursor OR push_bit (idx - cursor + 1) 1]"
  defines "h2 \<equiv> h1[cursor := h1 ! cursor XOR push_bit (offset - cursor + 1) 1]"
  shows "slots_inv E B (ks[idx := ks ! offset]) h2 {offset}"
proof -
  note d = slots_invD[OF inv]
  have idx: "idx < E" "occupied hs idx" using d(6)[of idx] by simp_all
  have cE: "cursor < E" using co lt idx by simp
  have c1: "cursor < length hs" using cE d(2) by simp
  have c2: "cursor < length h1" using c1 by (simp add: h1_def)
  have off: "offset < E" "occupied hs offset" "offset \<noteq> idx" "B (ks ! offset) = cursor"
    using d(3)[OF cE own] by simp_all
  have b2: "offset - cursor + 1 < LENGTH('h)" using owns_bound[OF own] by simp
  have ow: "owns h2 h i \<longleftrightarrow>
      (h = cursor \<and> i = idx) \<or> (owns hs h i \<and> \<not> (h = cursor \<and> i = offset))" for h i
  proof -
    have e1: "cursor \<le> i \<and> i + 1 = cursor + (idx - cursor + 1) \<longleftrightarrow> i = idx"
      using co lt by auto
    have e2: "cursor \<le> i \<and> i + 1 = cursor + (offset - cursor + 1) \<longleftrightarrow> i = offset"
      using co by auto
    have "owns h2 h i \<longleftrightarrow>
        ((owns hs h i \<or> (h = cursor \<and> i = idx)) \<noteq> (h = cursor \<and> i = offset))"
      unfolding h2_def owns_xor_push[OF c2] unfolding h1_def owns_or_push[OF c1]
      using near b2 e1 e2 by blast
    then show ?thesis using own lt by blast
  qed
  have oc: "occupied h2 i \<longleftrightarrow> occupied hs i" for i
  proof -
    have "occupied h2 i \<longleftrightarrow> occupied h1 i"
      unfolding h2_def by (rule occupied_xor_push) simp
    also have "\<dots> \<longleftrightarrow> occupied hs i"
      unfolding h1_def by (rule occupied_or_push) simp
    finally show ?thesis .
  qed
  have ks: "i \<noteq> idx \<Longrightarrow> ks[idx := ks ! offset] ! i = ks ! i" for i by simp
  have ksi: "ks[idx := ks ! offset] ! idx = ks ! offset" using idx d(1) by simp
  show ?thesis
  proof (rule slots_invI)
    show "length (ks[idx := ks ! offset]) = E" using d(1) by simp
    show "length h2 = E" using d(2) by (simp add: h2_def h1_def)
  next
    fix h i assume h: "h < E" and "owns h2 h i"
    then consider (new) "h = cursor" "i = idx"
      | (old) "owns hs h i" "\<not> (h = cursor \<and> i = offset)"
      using ow by blast
    then show "i < E \<and> occupied h2 i \<and> i \<notin> {offset} \<and> B (ks[idx := ks ! offset] ! i) = h"
    proof cases
      case new
      then show ?thesis using idx off lt by (simp add: oc ksi)
    next
      case old
      from d(3)[OF h old(1)] have i: "i < E" "occupied hs i" "i \<noteq> idx" "B (ks ! i) = h"
        by simp_all
      have "i \<noteq> offset"
      proof
        assume "i = offset"
        then have "h = cursor" using i(4) off(4) by simp
        with \<open>i = offset\<close> old(2) show False by simp
      qed
      then show ?thesis using i by (simp add: oc ks)
    qed
  next
    fix i assume i: "i < E" "occupied h2 i" "i \<notin> {offset}"
    show "owns h2 (B (ks[idx := ks ! offset] ! i)) i"
    proof (cases "i = idx")
      case True
      then show ?thesis using off(4) by (simp add: ow ksi)
    next
      case False
      then have "owns hs (B (ks ! i)) i" using d(4)[of i] i by (simp add: oc)
      then show ?thesis using False i(3) by (simp add: ow ks)
    qed
  next
    fix i j
    assume a: "i < E" "j < E" "occupied h2 i" "occupied h2 j" "i \<notin> {offset}" "j \<notin> {offset}"
      "ks[idx := ks ! offset] ! i = ks[idx := ks ! offset] ! j"
    have *: False if "u < E" "occupied hs u" "u \<noteq> offset" "u \<noteq> idx" "ks ! offset = ks ! u" for u
      using d(5)[of offset u] off that by simp
    show "i = j"
    proof (cases "i = idx")
      case i: True
      show ?thesis
      proof (cases "j = idx")
        case True
        with i show ?thesis by simp
      next
        case False
        then show ?thesis using *[of j] a i by (simp add: oc ksi ks)
      qed
    next
      case i: False
      show ?thesis
      proof (cases "j = idx")
        case True
        then show ?thesis using *[of i] a i by (simp add: oc ksi ks)
      next
        case False
        then show ?thesis using d(5)[of i j] a i by (simp add: oc ks)
      qed
    qed
  next
    fix i assume "i \<in> {offset}"
    then show "i < E \<and> occupied h2 i" using off by (simp add: oc)
  qed
qed

lemma slots_place:
  fixes hs :: "'h::len word list"
  assumes inv: "slots_inv E B ks hs {idx}"
    and b: "B key = b" "b \<le> idx" "idx - b + 1 < LENGTH('h)"
    and new: "\<And>i. i < E \<Longrightarrow> occupied hs i \<Longrightarrow> i \<noteq> idx \<Longrightarrow> ks ! i \<noteq> key"
  defines "h1 \<equiv> hs[idx := hs ! idx OR 1]"
  defines "h2 \<equiv> h1[b := h1 ! b OR push_bit (idx - b + 1) 1]"
  shows "slots_inv E B (ks[idx := key]) h2 {}"
proof -
  note d = slots_invD[OF inv]
  have idx: "idx < E" "occupied hs idx" using d(6)[of idx] by simp_all
  have l1: "idx < length hs" using idx d(2) by simp
  have l2: "b < length h1" using b(2) l1 by (simp add: h1_def)
  have ow: "owns h2 h i \<longleftrightarrow> (h = b \<and> i = idx) \<or> owns hs h i" for h i
  proof -
    have e1: "b \<le> i \<and> i + 1 = b + (idx - b + 1) \<longleftrightarrow> i = idx"
      using b(2) by auto
    show ?thesis
      unfolding h2_def owns_or_push[OF l2] unfolding h1_def owns_or_1
      using b(3) e1 by blast
  qed
  have oc: "occupied h2 i \<longleftrightarrow> occupied hs i" for i
  proof -
    have "occupied h2 i \<longleftrightarrow> occupied h1 i"
      unfolding h2_def by (rule occupied_or_push) simp
    also have "\<dots> \<longleftrightarrow> occupied hs i \<or> i = idx"
      unfolding h1_def by (rule occupied_or_1[OF l1])
    finally show ?thesis using idx(2) by blast
  qed
  have ks: "i \<noteq> idx \<Longrightarrow> ks[idx := key] ! i = ks ! i" for i by simp
  have ksi: "ks[idx := key] ! idx = key" using idx d(1) by simp
  show ?thesis
  proof (rule slots_invI)
    show "length (ks[idx := key]) = E" using d(1) by simp
    show "length h2 = E" using d(2) by (simp add: h2_def h1_def)
  next
    fix h i assume h: "h < E" and "owns h2 h i"
    then consider (new) "h = b" "i = idx" | (old) "owns hs h i"
      using ow by blast
    then show "i < E \<and> occupied h2 i \<and> i \<notin> {} \<and> B (ks[idx := key] ! i) = h"
    proof cases
      case new
      then show ?thesis using idx b(1) by (simp add: oc ksi)
    next
      case old
      from d(3)[OF h old] show ?thesis by (simp add: oc ks)
    qed
  next
    fix i assume i: "i < E" "occupied h2 i"
    show "owns h2 (B (ks[idx := key] ! i)) i"
    proof (cases "i = idx")
      case True
      then show ?thesis using b(1) by (simp add: ow ksi)
    next
      case False
      then have "owns hs (B (ks ! i)) i" using d(4)[of i] i by (simp add: oc)
      then show ?thesis using False by (simp add: ow ks)
    qed
  next
    fix i j
    assume a: "i < E" "j < E" "occupied h2 i" "occupied h2 j"
      "ks[idx := key] ! i = ks[idx := key] ! j"
    show "i = j"
    proof (cases "i = idx")
      case i: True
      show ?thesis
      proof (cases "j = idx")
        case True
        with i show ?thesis by simp
      next
        case False
        then show ?thesis using new[of j] a i by (simp add: oc ksi ks)
      qed
    next
      case i: False
      show ?thesis
      proof (cases "j = idx")
        case True
        then show ?thesis using new[of i] a i by (simp add: oc ksi ks)
      next
        case False
        then show ?thesis using d(5)[of i j] a i by (simp add: oc ks)
      qed
    qed
  next
    fix i :: nat assume "i \<in> {}"
    then show "i < E \<and> occupied h2 i" by simp
  qed
qed

lemma slots_remove:
  fixes hs :: "'h::len word list"
  assumes inv: "slots_inv E B ks hs {}"
    and b: "b < E" and own: "owns hs b index"
  defines "h1 \<equiv> hs[b := hs ! b XOR push_bit (index - b + 1) 1]"
  defines "h2 \<equiv> h1[index := h1 ! index XOR 1]"
  shows "slots_inv E B ks h2 {}"
proof -
  note d = slots_invD[OF inv]
  have ix: "index < E" "occupied hs index" "B (ks ! index) = b"
    using d(3)[OF b own] by simp_all
  have l1: "b < length hs" using b d(2) by simp
  have l2: "index < length h1" using ix d(2) by (simp add: h1_def)
  have bb: "b \<le> index" "index - b + 1 < LENGTH('h)" using owns_bound[OF own] by simp_all
  have ow: "owns h2 h i \<longleftrightarrow> owns hs h i \<and> \<not> (h = b \<and> i = index)" for h i
  proof -
    have e1: "b \<le> i \<and> i + 1 = b + (index - b + 1) \<longleftrightarrow> i = index"
      using bb(1) by auto
    have "owns h2 h i \<longleftrightarrow> (owns hs h i \<noteq> (h = b \<and> i = index))"
      unfolding h2_def owns_xor_1 unfolding h1_def owns_xor_push[OF l1]
      using bb(2) e1 by blast
    then show ?thesis using own by blast
  qed
  have oc: "occupied h2 i \<longleftrightarrow> occupied hs i \<and> i \<noteq> index" for i
  proof -
    have "occupied h2 i \<longleftrightarrow> (occupied h1 i \<noteq> (i = index))"
      unfolding h2_def by (rule occupied_xor_1[OF l2])
    also have "occupied h1 i \<longleftrightarrow> occupied hs i"
      unfolding h1_def by (rule occupied_xor_push) simp
    finally show ?thesis using ix(2) by blast
  qed
  show ?thesis
  proof (rule slots_invI)
    show "length ks = E" by (rule d(1))
    show "length h2 = E" using d(2) by (simp add: h2_def h1_def)
  next
    fix h i assume h: "h < E" and o: "owns h2 h i"
    then have o': "owns hs h i" "\<not> (h = b \<and> i = index)" by (simp_all add: ow)
    from d(3)[OF h o'(1)] have i: "i < E" "occupied hs i" "B (ks ! i) = h" by simp_all
    have "i \<noteq> index" using o'(2) i(3) ix(3) by auto
    then show "i < E \<and> occupied h2 i \<and> i \<notin> {} \<and> B (ks ! i) = h"
      using i by (simp add: oc)
  next
    fix i assume i: "i < E" "occupied h2 i"
    then have "owns hs (B (ks ! i)) i" "i \<noteq> index" using d(4)[of i] by (simp_all add: oc)
    then show "owns h2 (B (ks ! i)) i" by (simp add: ow)
  next
    fix i j
    assume "i < E" "j < E" "occupied h2 i" "occupied h2 j" "ks ! i = ks ! j"
    then show "i = j" using d(5)[of i j] by (simp add: oc)
  next
    fix i :: nat assume "i \<in> {}"
    then show "i < E \<and> occupied h2 i" by simp
  qed
qed

section \<open>Steps of the algorithm on a table\<close>

lemma pow2_32_neq_0: "j \<le> 31 \<Longrightarrow> (2::32 word) ^ j \<noteq> 0"
  using unat_pow2_32[of j] by (auto simp: unat_eq_zero[symmetric] simp del: unat_eq_zero)

lemma table_inv_props:
  fixes s :: "('k, 'h::len, 'z) hop_base_scheme"
  assumes "table_inv H s R"
  shows "valid_hop_size TYPE('h)"
    and "capacity_m s \<noteq> 0"
    and "end_index s = unat (capacity_m s) + hop_bucket TYPE('h)"
    and "slots_inv (end_index s) (get_bucket_index H s) (keys_m s) (hops_m s) R"
    and "unat (size_m s) + card R = card (live s)"
    and "\<And>k. get_bucket_index H s k < end_index s"
    and "end_index s < 2 ^ 32"
proof -
  from assms obtain j where j: "j \<le> 31" "capacity_m s = 2 ^ j"
    unfolding table_inv_def by blast
  show v: "valid_hop_size TYPE('h)" using assms unfolding table_inv_def by blast
  show nz: "capacity_m s \<noteq> 0" using j pow2_32_neq_0 by simp
  show e: "end_index s = unat (capacity_m s) + hop_bucket TYPE('h)"
    using end_index_pow2[OF v j(2) j(1)] .
  show "slots_inv (end_index s) (get_bucket_index H s) (keys_m s) (hops_m s) R"
    using assms unfolding table_inv_def by blast
  show "unat (size_m s) + card R = card (live s)"
    using assms unfolding table_inv_def by blast
  show "get_bucket_index H s k < end_index s" for k
    using get_bucket_index_less[OF nz, of H k] e by simp
  have "unat (capacity_m s) \<le> 2147483648"
    using j pow2_le_31[of j] by (simp add: unat_pow2_32)
  then show "end_index s < 2 ^ 32"
    using e valid_hop_bucket(3)[OF v] by simp
qed

lemma table_inv_step:
  fixes s s' :: "('k, 'h::len, 'z) hop_base_scheme"
  assumes inv: "table_inv H s R"
    and cap: "capacity_m s' = capacity_m s"
    and sl: "slots_inv (end_index s) (get_bucket_index H s) (keys_m s') (hops_m s') R'"
    and card: "unat (size_m s') + card R' = card {i. i < end_index s \<and> occupied (hops_m s') i}"
  shows "table_inv H s' R'"
proof -
  have e: "end_index s' = end_index s" using cap by (simp add: end_index_def)
  have b: "get_bucket_index H s' = get_bucket_index H s"
    using cap by (rule get_bucket_index_cong)
  show ?thesis
    using inv sl card unfolding table_inv_def live_def e b cap by blast
qed

lemma live_finite: "finite (live s)"
  by (simp add: live_def)

lemma live_card_le: "card (live s) \<le> end_index s"
proof -
  have "live s \<subseteq> {..< end_index s}" by (auto simp: live_def)
  then have "card (live s) \<le> card {..< end_index s}" by (intro card_mono) simp_all
  then show ?thesis by simp
qed

lemma elements_image:
  "elements s R = (\<lambda>i. keys_m s ! i) ` (live s - R)"
  by (auto simp: elements_def)

lemma elements_cong:
  "end_index s' = end_index s \<Longrightarrow> hops_m s' = hops_m s \<Longrightarrow> keys_m s' = keys_m s \<Longrightarrow>
   elements s' R = elements s R"
  by (simp add: elements_def live_def)

lemma table_reserve:
  fixes s :: "('k, 'h::len, 'z) hop_base_scheme"
  assumes inv: "table_inv H s {}" and idx: "idx < end_index s"
    and free: "\<not> occupied (hops_m s) idx"
  defines "s' \<equiv> s\<lparr>hops_m := (hops_m s)[idx := hops_m s ! idx OR 1]\<rparr>"
  shows "table_inv H s' {idx}" "elements s' {idx} = elements s {}"
    "capacity_m s' = capacity_m s"
proof -
  note p = table_inv_props[OF inv]
  note d = slots_invD[OF p(4)]
  have len: "idx < length (hops_m s)" using idx d(2) by simp
  have oc: "occupied (hops_m s') i \<longleftrightarrow> occupied (hops_m s) i \<or> i = idx" for i
    unfolding s'_def by (simp add: occupied_or_1[OF len])
  have e: "end_index s' = end_index s" by (simp add: s'_def end_index_def)
  have l: "live s' = insert idx (live s)"
    unfolding live_def e using idx by (auto simp: oc)
  have nl: "idx \<notin> live s" using free by (simp add: live_def)
  show "capacity_m s' = capacity_m s" by (simp add: s'_def)
  show "table_inv H s' {idx}"
  proof (rule table_inv_step[OF inv])
    show "capacity_m s' = capacity_m s" by (simp add: s'_def)
    show "slots_inv (end_index s) (get_bucket_index H s) (keys_m s') (hops_m s') {idx}"
      using slots_reserve[OF p(4) idx free] by (simp add: s'_def)
    have "card (live s') = Suc (card (live s))"
      unfolding l by (simp add: nl live_finite)
    then show "unat (size_m s') + card {idx} =
        card {i. i < end_index s \<and> occupied (hops_m s') i}"
      using p(5) unfolding live_def e by (simp add: s'_def)
  qed
  show "elements s' {idx} = elements s {}"
    unfolding elements_image l using nl by (simp add: s'_def)
qed

lemma table_unreserve:
  fixes s :: "('k, 'h::len, 'z) hop_base_scheme"
  assumes inv: "table_inv H s {idx}"
  defines "s' \<equiv> s\<lparr>hops_m := (hops_m s)[idx := hops_m s ! idx XOR 1]\<rparr>"
  shows "table_inv H s' {}" "elements s' {} = elements s {idx}"
    "capacity_m s' = capacity_m s"
proof -
  note p = table_inv_props[OF inv]
  note d = slots_invD[OF p(4)]
  have idx: "idx < end_index s" "occupied (hops_m s) idx" using d(6)[of idx] by simp_all
  have len: "idx < length (hops_m s)" using idx d(2) by simp
  have oc: "occupied (hops_m s') i \<longleftrightarrow> occupied (hops_m s) i \<and> i \<noteq> idx" for i
    unfolding s'_def using idx(2) by (auto simp: occupied_xor_1[OF len])
  have e: "end_index s' = end_index s" by (simp add: s'_def end_index_def)
  have l: "live s' = live s - {idx}"
    unfolding live_def e by (auto simp: oc)
  have il: "idx \<in> live s" using idx by (simp add: live_def)
  show "capacity_m s' = capacity_m s" by (simp add: s'_def)
  show "table_inv H s' {}"
  proof (rule table_inv_step[OF inv])
    show "capacity_m s' = capacity_m s" by (simp add: s'_def)
    show "slots_inv (end_index s) (get_bucket_index H s) (keys_m s') (hops_m s') {}"
      using slots_unreserve[OF p(4)] by (simp add: s'_def)
    have "card (live s') = card (live s) - 1"
      unfolding l by (simp add: il live_finite)
    then show "unat (size_m s') + card ({}::nat set) =
        card {i. i < end_index s \<and> occupied (hops_m s') i}"
      using p(5) unfolding live_def e by (simp add: s'_def)
  qed
  show "elements s' {} = elements s {idx}"
    unfolding elements_image l by (simp add: s'_def)
qed

lemma table_move:
  fixes s :: "('k, 'h::len, 'z) hop_base_scheme"
  assumes inv: "table_inv H s {idx}"
    and lt: "offset < idx" and co: "cursor \<le> offset" and own: "owns (hops_m s) cursor offset"
    and near: "idx - cursor + 1 < LENGTH('h)"
  defines "h1 \<equiv> (hops_m s)[cursor := hops_m s ! cursor OR push_bit (idx - cursor + 1) 1]"
  defines "h2 \<equiv> h1[cursor := h1 ! cursor XOR push_bit (offset - cursor + 1) 1]"
  defines "s' \<equiv> s\<lparr>keys_m := (keys_m s)[idx := keys_m s ! offset], hops_m := h2\<rparr>"
  shows "table_inv H s' {offset}" "elements s' {offset} = elements s {idx}"
    "capacity_m s' = capacity_m s"
proof -
  note p = table_inv_props[OF inv]
  note d = slots_invD[OF p(4)]
  have idx: "idx < end_index s" "occupied (hops_m s) idx" using d(6)[of idx] by simp_all
  have cE: "cursor < end_index s" using co lt idx by simp
  have off: "offset < end_index s" "occupied (hops_m s) offset" "offset \<noteq> idx"
    using d(3)[OF cE own] by simp_all
  have oc: "occupied h2 i \<longleftrightarrow> occupied (hops_m s) i" for i
  proof -
    have "occupied h2 i \<longleftrightarrow> occupied h1 i"
      unfolding h2_def by (rule occupied_xor_push) simp
    also have "\<dots> \<longleftrightarrow> occupied (hops_m s) i"
      unfolding h1_def by (rule occupied_or_push) simp
    finally show ?thesis .
  qed
  have e: "end_index s' = end_index s" by (simp add: s'_def end_index_def)
  have l: "live s' = live s"
    unfolding live_def e by (simp add: s'_def oc)
  have il: "idx \<in> live s" "offset \<in> live s" using idx off by (simp_all add: live_def)
  show "capacity_m s' = capacity_m s" by (simp add: s'_def)
  show "table_inv H s' {offset}"
  proof (rule table_inv_step[OF inv])
    show "capacity_m s' = capacity_m s" by (simp add: s'_def)
    show "slots_inv (end_index s) (get_bucket_index H s) (keys_m s') (hops_m s') {offset}"
      using slots_move[OF p(4) lt co own near] by (simp add: s'_def h2_def h1_def)
    show "unat (size_m s') + card {offset} =
        card {i. i < end_index s \<and> occupied (hops_m s') i}"
      using p(5) unfolding live_def by (simp add: s'_def oc)
  qed
  have ks: "keys_m s' ! i = (if i = idx then keys_m s ! offset else keys_m s ! i)" for i
    using idx d(1) by (simp add: s'_def nth_list_update)
  show "elements s' {offset} = elements s {idx}"
  proof (intro set_eqI iffI)
    fix x assume "x \<in> elements s' {offset}"
    then obtain i where i: "i \<in> live s" "i \<noteq> offset" "x = keys_m s' ! i"
      unfolding elements_image l by auto
    show "x \<in> elements s {idx}"
    proof (cases "i = idx")
      case True
      then have "x = keys_m s ! offset" using i(3) by (simp add: ks)
      then show ?thesis unfolding elements_image using il(2) off(3) by auto
    next
      case False
      then have "x = keys_m s ! i" using i(3) by (simp add: ks)
      then show ?thesis unfolding elements_image using i(1) False by auto
    qed
  next
    fix x assume "x \<in> elements s {idx}"
    then obtain i where i: "i \<in> live s" "i \<noteq> idx" "x = keys_m s ! i"
      unfolding elements_image by auto
    show "x \<in> elements s' {offset}"
    proof (cases "i = offset")
      case True
      then have "x = keys_m s' ! idx" using i(3) by (simp add: ks)
      then show ?thesis unfolding elements_image l using il(1) off(3) by auto
    next
      case False
      then have "x = keys_m s' ! i" using i(2,3) by (simp add: ks)
      then show ?thesis unfolding elements_image l using i(1) False by auto
    qed
  qed
qed

lemma table_place:
  fixes s :: "('k, 'h::len, 'z) hop_base_scheme"
  assumes inv: "table_inv H s {idx}"
    and b: "get_bucket_index H s key = b" "b \<le> idx" "idx - b + 1 < LENGTH('h)"
    and new: "key \<notin> elements s {idx}"
  defines "h1 \<equiv> (hops_m s)[idx := hops_m s ! idx OR 1]"
  defines "h2 \<equiv> h1[b := h1 ! b OR push_bit (idx - b + 1) 1]"
  defines "s' \<equiv> s\<lparr>keys_m := (keys_m s)[idx := key], hops_m := h2, size_m := size_m s + 1\<rparr>"
  shows "table_inv H s' {}" "elements s' {} = insert key (elements s {idx})"
    "capacity_m s' = capacity_m s"
    "idx < end_index s'" "occupied (hops_m s') idx" "keys_m s' ! idx = key"
proof -
  note p = table_inv_props[OF inv]
  note d = slots_invD[OF p(4)]
  have idx: "idx < end_index s" "occupied (hops_m s) idx" using d(6)[of idx] by simp_all
  have l1: "idx < length (hops_m s)" using idx d(2) by simp
  have oc: "occupied h2 i \<longleftrightarrow> occupied (hops_m s) i" for i
  proof -
    have "occupied h2 i \<longleftrightarrow> occupied h1 i"
      unfolding h2_def by (rule occupied_or_push) simp
    also have "\<dots> \<longleftrightarrow> occupied (hops_m s) i \<or> i = idx"
      unfolding h1_def by (rule occupied_or_1[OF l1])
    finally show ?thesis using idx(2) by blast
  qed
  have e: "end_index s' = end_index s" by (simp add: s'_def end_index_def)
  have l: "live s' = live s"
    unfolding live_def e by (simp add: s'_def oc)
  have il: "idx \<in> live s" using idx by (simp add: live_def)
  have new': "ks ! i \<noteq> key" if "i < end_index s" "occupied (hops_m s) i" "i \<noteq> idx"
      "ks = keys_m s" for i ks
    using new that unfolding elements_def live_def by auto
  show "capacity_m s' = capacity_m s" by (simp add: s'_def)
  show "idx < end_index s'" using idx e by simp
  show "occupied (hops_m s') idx" using idx by (simp add: s'_def oc)
  show "keys_m s' ! idx = key" using idx d(1) by (simp add: s'_def)
  have "card (live s) \<le> end_index s" by (rule live_card_le)
  then have "unat (size_m s) + 1 < 2 ^ 32" using p(5,7) by simp
  then have sz: "unat (size_m s + 1) = unat (size_m s) + 1"
    using unat_add_lem[of "size_m s" 1] by simp
  show "table_inv H s' {}"
  proof (rule table_inv_step[OF inv])
    show "capacity_m s' = capacity_m s" by (simp add: s'_def)
    show "slots_inv (end_index s) (get_bucket_index H s) (keys_m s') (hops_m s') {}"
      using slots_place[OF p(4) b new'] by (simp add: s'_def h2_def h1_def)
    show "unat (size_m s') + card ({}::nat set) =
        card {i. i < end_index s \<and> occupied (hops_m s') i}"
      using p(5) sz unfolding live_def by (simp add: s'_def oc)
  qed
  have ks: "keys_m s' ! i = (if i = idx then key else keys_m s ! i)" for i
    using idx d(1) by (simp add: s'_def nth_list_update)
  show "elements s' {} = insert key (elements s {idx})"
  proof (intro set_eqI iffI)
    fix x assume "x \<in> elements s' {}"
    then obtain i where i: "i \<in> live s" "x = keys_m s' ! i"
      unfolding elements_image l by auto
    then show "x \<in> insert key (elements s {idx})"
      unfolding elements_image by (cases "i = idx") (auto simp: ks)
  next
    fix x assume "x \<in> insert key (elements s {idx})"
    then consider "x = key" | i where "i \<in> live s" "i \<noteq> idx" "x = keys_m s ! i"
      unfolding elements_image by auto
    then show "x \<in> elements s' {}"
    proof cases
      case 1
      then have "x = keys_m s' ! idx" by (simp add: ks)
      then show ?thesis unfolding elements_image l using il by auto
    next
      case 2
      then have "x = keys_m s' ! i" by (simp add: ks)
      then show ?thesis unfolding elements_image l using 2(1) by auto
    qed
  qed
qed

lemma table_remove:
  fixes s :: "('k, 'h::len, 'z) hop_base_scheme"
  assumes inv: "table_inv H s {}"
    and b: "b < end_index s" and own: "owns (hops_m s) b index"
  defines "h1 \<equiv> (hops_m s)[b := hops_m s ! b XOR push_bit (index - b + 1) 1]"
  defines "h2 \<equiv> h1[index := h1 ! index XOR 1]"
  defines "s' \<equiv> s\<lparr>hops_m := h2, size_m := size_m s - 1\<rparr>"
  shows "table_inv H s' {}" "elements s' {} = elements s {} - {keys_m s ! index}"
    "capacity_m s' = capacity_m s"
proof -
  note p = table_inv_props[OF inv]
  note d = slots_invD[OF p(4)]
  have ix: "index < end_index s" "occupied (hops_m s) index"
    using d(3)[OF b own] by simp_all
  have l2: "index < length h1" using ix d(2) by (simp add: h1_def)
  have oc: "occupied h2 i \<longleftrightarrow> occupied (hops_m s) i \<and> i \<noteq> index" for i
  proof -
    have "occupied h2 i \<longleftrightarrow> (occupied h1 i \<noteq> (i = index))"
      unfolding h2_def by (rule occupied_xor_1[OF l2])
    also have "occupied h1 i \<longleftrightarrow> occupied (hops_m s) i"
      unfolding h1_def by (rule occupied_xor_push) simp
    finally show ?thesis using ix(2) by blast
  qed
  have e: "end_index s' = end_index s" by (simp add: s'_def end_index_def)
  have l: "live s' = live s - {index}"
    unfolding live_def e by (auto simp: s'_def oc)
  have il: "index \<in> live s" using ix by (simp add: live_def)
  then have "0 < card (live s)" using live_finite[of s] by (auto simp: card_gt_0_iff)
  then have "size_m s \<noteq> 0" using p(5) by auto
  then have sz: "unat (size_m s - 1) = unat (size_m s) - 1" by (rule unat_minus_one)
  show "capacity_m s' = capacity_m s" by (simp add: s'_def)
  show "table_inv H s' {}"
  proof (rule table_inv_step[OF inv])
    show "capacity_m s' = capacity_m s" by (simp add: s'_def)
    show "slots_inv (end_index s) (get_bucket_index H s) (keys_m s') (hops_m s') {}"
      using slots_remove[OF p(4) b own] by (simp add: s'_def h2_def h1_def)
    have "card (live s') = card (live s) - 1"
      unfolding l by (simp add: il live_finite)
    then show "unat (size_m s') + card ({}::nat set) =
        card {i. i < end_index s \<and> occupied (hops_m s') i}"
      using p(5) sz unfolding live_def e by (simp add: s'_def)
  qed
  have ks: "keys_m s' = keys_m s" by (simp add: s'_def)
  show "elements s' {} = elements s {} - {keys_m s ! index}"
  proof (intro set_eqI iffI)
    fix x assume "x \<in> elements s' {}"
    then obtain i where i: "i \<in> live s" "i \<noteq> index" "x = keys_m s ! i"
      unfolding elements_image l ks by auto
    have "keys_m s ! i \<noteq> keys_m s ! index"
      using d(5)[of i index] i(1,2) il by (auto simp: live_def)
    then show "x \<in> elements s {} - {keys_m s ! index}"
      unfolding elements_image using i by auto
  next
    fix x assume "x \<in> elements s {} - {keys_m s ! index}"
    then obtain i where i: "i \<in> live s" "x = keys_m s ! i" "x \<noteq> keys_m s ! index"
      unfolding elements_image by auto
    then have "i \<noteq> index" by auto
    then show "x \<in> elements s' {}"
      unfolding elements_image l ks using i by auto
  qed
qed

subsection \<open>Lookup in a well-formed table\<close>

lemma find_internal_owns:
  "(find_internal s b k = end_index s \<and> (\<forall>i. owns (hops_m s) b i \<longrightarrow> keys_m s ! i \<noteq> k)) \<or>
   (\<exists>i. owns (hops_m s) b i \<and> keys_m s ! i = k \<and> find_internal s b k = i)"
proof -
  let ?w = "hops_m s ! b"
  have bd: "\<And>j. bit (drop_bit 1 ?w) j = bit ?w (j + 1)"
    by (simp add: bit_drop_bit_eq)
  from find_loop_spec[of "keys_m s" "drop_bit 1 ?w" b k "end_index s"]
  consider (none) "find_internal s b k = end_index s"
      "\<forall>j. bit ?w (j + 1) \<longrightarrow> keys_m s ! (b + j) \<noteq> k"
    | (some) j where "bit ?w (j + 1)" "keys_m s ! (b + j) = k" "find_internal s b k = b + j"
    unfolding find_internal_def bd by blast
  then show ?thesis
  proof cases
    case none
    have "keys_m s ! i \<noteq> k" if "owns (hops_m s) b i" for i
      using none(2)[rule_format, of "i - b"] that by (simp add: owns_def)
    with none(1) show ?thesis by blast
  next
    case some
    then have "owns (hops_m s) b (b + j)" by (simp add: owns_def)
    with some show ?thesis by blast
  qed
qed

lemma find_internal_table:
  fixes s :: "('k, 'h::len, 'z) hop_base_scheme" and k :: 'k
  assumes inv: "table_inv H s {}"
  defines "r \<equiv> find_internal s (get_bucket_index H s k) k"
  shows "(r = end_index s \<and> k \<notin> elements s {}) \<or>
     (r < end_index s \<and> occupied (hops_m s) r \<and> keys_m s ! r = k \<and>
      owns (hops_m s) (get_bucket_index H s k) r \<and> k \<in> elements s {})"
proof -
  note p = table_inv_props[OF inv]
  note d = slots_invD[OF p(4)]
  let ?b = "get_bucket_index H s k"
  from find_internal_owns[of s ?b k]
  consider (none) "r = end_index s" "\<forall>i. owns (hops_m s) ?b i \<longrightarrow> keys_m s ! i \<noteq> k"
    | (some) i where "owns (hops_m s) ?b i" "keys_m s ! i = k" "r = i"
    unfolding r_def by blast
  then show ?thesis
  proof cases
    case none
    have "k \<notin> elements s {}"
    proof
      assume "k \<in> elements s {}"
      then obtain i where i: "i < end_index s" "occupied (hops_m s) i" "keys_m s ! i = k"
        unfolding elements_def live_def by auto
      then have "owns (hops_m s) ?b i" using d(4)[of i] by auto
      with none(2) i(3) show False by blast
    qed
    with none(1) show ?thesis by simp
  next
    case some
    from d(3)[OF p(6) some(1)] have "i < end_index s" "occupied (hops_m s) i" by simp_all
    moreover from this some(2) have "k \<in> elements s {}"
      unfolding elements_def live_def by auto
    ultimately show ?thesis using some by simp
  qed
qed

lemma has_iff_elements:
  assumes "table_inv H s {}"
  shows "has H s k \<longleftrightarrow> k \<in> elements s {}"
  using find_internal_table[OF assms, of k] by (auto simp: has_def Let_def)

section \<open>\<^verbatim>\<open>insert\<close> keeps a table well-formed\<close>

lemma Set_displace_inv:
  fixes s :: "('k, 'h::len) hop_base"
  assumes "table_inv H s {idx}" "b \<le> idx"
  shows "case Set_displace s b idx of
      Inl (s', idx') \<Rightarrow>
        table_inv H s' {idx'} \<and> b \<le> idx' \<and> idx' \<le> b + hop_bucket TYPE('h) - 1 \<and>
        elements s' {idx'} = elements s {idx} \<and> capacity_m s' = capacity_m s
    | Inr s' \<Rightarrow>
        table_inv H s' {} \<and> elements s' {} = elements s {idx} \<and> capacity_m s' = capacity_m s"
  using assms
proof (induction idx arbitrary: s rule: less_induct)
  case (less idx)
  note inv = less.prems(1)
  note p = table_inv_props[OF inv]
  note hb = valid_hop_bucket[OF p(1)]
  define lf where "lf = (if idx < hop_bucket TYPE('h) then 0 else idx - hop_bucket TYPE('h) + 1)"
  obtain offset cursor where oc: "offset_loop (hops_m s) lf idx lf = (offset, cursor)"
    by (cases "offset_loop (hops_m s) lf idx lf")
  note su = Set_displace_unfold[OF lf_def oc, of b]
  show ?case
  proof (cases "idx > b + hop_bucket TYPE('h) - 1")
    case False
    then show ?thesis unfolding su using less.prems by simp
  next
    case far: True
    then have lf: "lf = idx - hop_bucket TYPE('h) + 1" "lf \<le> idx" "idx - lf < 31" "b < lf"
      using hb by (auto simp: lf_def)
    from offset_loop_spec[OF le_refl lf(2) lf(3) oc]
    have os: "lf \<le> offset" "offset \<le> idx"
      "offset < idx \<Longrightarrow> lf \<le> cursor \<and> cursor \<le> offset \<and> owns (hops_m s) cursor offset"
      by simp_all
    show ?thesis
    proof (cases "offset \<ge> idx")
      case True
      then show ?thesis
        unfolding su using far table_unreserve[OF inv] by simp
    next
      case False
      then have lt: "offset < idx" by simp
      from os(3)[OF lt] have c: "lf \<le> cursor" "cursor \<le> offset" "owns (hops_m s) cursor offset"
        by simp_all
      have near: "idx - cursor + 1 < LENGTH('h)"
        using c(1) lf(1) far hb by simp
      let ?s' = "s\<lparr>keys_m := (keys_m s)[idx := keys_m s ! offset],
          hops_m := ((hops_m s)[cursor := hops_m s ! cursor OR push_bit (idx - cursor + 1) 1])
            [cursor := ((hops_m s)[cursor := hops_m s ! cursor OR push_bit (idx - cursor + 1) 1]) ! cursor
                XOR push_bit (offset - cursor + 1) 1]\<rparr>"
      note m = table_move[OF inv lt c(2) c(3) near]
      have bo: "b \<le> offset" using os(1) lf(4) by simp
      from less.IH[OF lt m(1) bo]
      show ?thesis
        unfolding su using far False m(2,3)
        by (auto split: sum.splits)
    qed
  qed
qed

lemma Set_insert_body_inv:
  fixes s :: "('k, 'h::len) hop_base"
  assumes inv: "table_inv H s {}"
  shows "case Set_insert_body H s k of
      Found i \<Rightarrow>
        k \<in> elements s {} \<and> i = find_internal s (get_bucket_index H s k) k \<and>
        i < end_index s \<and> occupied (hops_m s) i \<and> keys_m s ! i = k
    | Placed s' i \<Rightarrow>
        k \<notin> elements s {} \<and> table_inv H s' {} \<and>
        elements s' {} = insert k (elements s {}) \<and> capacity_m s' = capacity_m s \<and>
        i < end_index s' \<and> occupied (hops_m s') i \<and> keys_m s' ! i = k
    | Grow s' \<Rightarrow>
        k \<notin> elements s {} \<and> table_inv H s' {} \<and>
        elements s' {} = elements s {} \<and> capacity_m s' = capacity_m s"
proof -
  note p = table_inv_props[OF inv]
  note hb = valid_hop_bucket[OF p(1)]
  define b where "b = get_bucket_index H s k"
  define pe where "pe = (if b + probe_max TYPE('h) > end_index s then end_index s
               else b + probe_max TYPE('h))"
  define idx where "idx = probe_loop (hops_m s) pe b"
  define s1 where "s1 = s\<lparr>hops_m := (hops_m s)[idx := hops_m s ! idx OR 1]\<rparr>"
  note su = Set_insert_body_unfold[OF b_def pe_def idx_def, folded s1_def]
  have bE: "b < end_index s" unfolding b_def by (rule p(6))
  note ft = find_internal_table[OF inv, of k, folded b_def]
  show ?thesis
  proof (cases "find_internal s b k \<noteq> end_index s")
    case True
    then show ?thesis unfolding su using ft by (simp add: b_def)
  next
    case nf: False
    then have new: "k \<notin> elements s {}" using ft by auto
    have bpe: "b \<le> pe" "pe \<le> end_index s" using bE by (auto simp: pe_def)
    from probe_loop_spec[OF bpe(1), of "hops_m s"]
    have pl: "b \<le> idx" "idx \<le> pe" "idx < pe \<Longrightarrow> \<not> occupied (hops_m s) idx"
      unfolding idx_def by simp_all
    show ?thesis
    proof (cases "idx = pe")
      case True
      then show ?thesis unfolding su using nf new inv by simp
    next
      case False
      then have lt: "idx < pe" using pl(2) by simp
      then have iE: "idx < end_index s" using bpe(2) by simp
      note r = table_reserve[OF inv iE pl(3)[OF lt], folded s1_def]
      note dis = Set_displace_inv[OF r(1) pl(1)]
      show ?thesis
      proof (cases "Set_displace s1 b idx")
        case (Inr s')
        then show ?thesis
          unfolding su using nf False new dis r(2,3) by simp
      next
        case (Inl q)
        obtain s' idx' where q: "q = (s', idx')" by (cases q)
        from dis have d: "table_inv H s' {idx'}" "b \<le> idx'" "idx' \<le> b + hop_bucket TYPE('h) - 1"
          "elements s' {idx'} = elements s1 {idx}" "capacity_m s' = capacity_m s1"
          unfolding Inl q by simp_all
        have gb: "get_bucket_index H s' k = b"
          unfolding b_def using d(5) r(3) by (simp add: get_bucket_index_def)
        have near: "idx' - b + 1 < LENGTH('h)" using d(2,3) hb by simp
        have new': "k \<notin> elements s' {idx'}" using new d(4) r(2) by simp
        note pl = table_place[OF d(1) gb d(2) near new']
        show ?thesis
          unfolding su Inl q using nf False new pl d(4,5) r(2,3) by simp
      qed
    qed
  qed
qed

lemma fresh_table_inv:
  fixes cap :: "32 word"
  assumes v: "valid_hop_size TYPE('h::len)" and j: "j \<le> 31" "cap = 2 ^ j"
  defines "n \<equiv> unat (cap + of_nat (hop_bucket TYPE('h)))"
  defines "s \<equiv> \<lparr> keys_m = replicate n (0::'k::zero), hops_m = replicate n (0::'h word),
      size_m = 0, capacity_m = cap \<rparr>"
  shows "table_inv H s {}" "elements s {} = {}"
proof -
  have e: "end_index s = n" by (simp add: s_def n_def end_index_def)
  have no: "\<not> occupied (hops_m s) i" if "i < n" for i
    using that by (simp add: s_def occupied_iff)
  have nw: "\<not> owns (hops_m s) h i" if "h < n" for h i
    using that by (simp add: s_def owns_def)
  have l: "live s = {}" unfolding live_def e using no by auto
  show "elements s {} = {}" unfolding elements_image l by simp
  have "slots_inv n (get_bucket_index H s) (keys_m s) (hops_m s) {}"
    by (rule slots_invI) (use no nw in \<open>auto simp: s_def\<close>)
  then show "table_inv H s {}"
    unfolding table_inv_def e l using v j by (auto simp: s_def)
qed

lemma Set_insert_capacity_0:
  "capacity_m s = 0 \<Longrightarrow> Set_insert n H s k = None"
  by (cases n) simp_all

lemma Set_reinsert_capacity_0:
  assumes "capacity_m s = 0" "Set_reinsert (Set_insert n H) ok oh iters s = Some s'"
  shows "s' = s"
  using assms
  by (induction iters) (auto simp: Set_insert_capacity_0 split: if_splits)

lemma Set_reinsert_inv:
  assumes ins: "\<And>s k r s'. table_inv H s {} \<Longrightarrow> ins s k = Some (r, s') \<Longrightarrow>
      table_inv H s' {} \<and> elements s' {} = insert k (elements s {}) \<and>
      (\<exists>i. capacity_m s' = capacity_m s * 2 ^ i)"
    and "table_inv H s {}" "Set_reinsert ins ok oh iters s = Some s'"
  shows "table_inv H s' {} \<and>
     elements s' {} = elements s {} \<union> {ok ! i | i. i \<in> set iters \<and> occupied oh i} \<and>
     (\<exists>i. capacity_m s' = capacity_m s * 2 ^ i)"
  using assms(2,3)
proof (induction iters arbitrary: s)
  case Nil
  then have "s' = s" by simp
  moreover have "capacity_m s = capacity_m s * 2 ^ 0" by simp
  moreover have "elements s {} \<union> {ok ! i | i. i \<in> set [] \<and> occupied oh i} = elements s {}"
    by simp
  ultimately show ?case using Nil(1) by metis
next
  case (Cons iter iters)
  show ?case
  proof (cases "occupied oh iter")
    case False
    then have "Set_reinsert ins ok oh iters s = Some s'" using Cons.prems(2) by simp
    from Cons.IH[OF Cons.prems(1) this] False show ?thesis by auto
  next
    case True
    then obtain r s1 where s1: "ins s (ok ! iter) = Some (r, s1)"
      "Set_reinsert ins ok oh iters s1 = Some s'"
      using Cons.prems(2) by (auto split: option.splits)
    from ins[OF Cons.prems(1) s1(1)] obtain i where
      a: "table_inv H s1 {}" "elements s1 {} = insert (ok ! iter) (elements s {})"
      "capacity_m s1 = capacity_m s * 2 ^ i" by blast
    from Cons.IH[OF a(1) s1(2)] obtain i' where
      b: "table_inv H s' {}"
      "elements s' {} = elements s1 {} \<union> {ok ! i | i. i \<in> set iters \<and> occupied oh i}"
      "capacity_m s' = capacity_m s1 * 2 ^ i'" by blast
    have "capacity_m s' = capacity_m s * 2 ^ (i + i')"
      using a(3) b(3) by (simp add: power_add)
    moreover have "elements s' {} =
        elements s {} \<union> {ok ! i | i. i \<in> set (iter # iters) \<and> occupied oh i}"
      unfolding b(2) a(2) using True by auto
    ultimately show ?thesis using b(1) by blast
  qed
qed

lemma Set_insert_inv:
  fixes s :: "('k::zero, 'h::len) hop_base"
  assumes "table_inv H s {}" "Set_insert n H s k = Some (r, s')"
  shows "table_inv H s' {} \<and> elements s' {} = insert k (elements s {}) \<and>
     (r \<longleftrightarrow> k \<notin> elements s {}) \<and> (\<exists>i. capacity_m s' = capacity_m s * 2 ^ i)"
  using assms
proof (induction n arbitrary: s k r s')
  case 0
  then show ?case by simp
next
  case (Suc n)
  note inv = Suc.prems(1)
  note p = table_inv_props[OF inv]
  note body = Set_insert_body_inv[OF inv, of k]
  have c0: "capacity_m s = capacity_m s * 2 ^ 0" by simp
  have step: "Set_insert (Suc n) H s k =
      (case Set_insert_body H s k of
         Found ins_pt \<Rightarrow> Some (False, s)
       | Placed s' idx \<Rightarrow> Some (True, s')
       | Grow s' \<Rightarrow>
           (case Set_expand_with (Set_insert n H) s' of
              None \<Rightarrow> None
            | Some s'' \<Rightarrow> Set_insert n H s'' k))"
    using p(2) by simp
  show ?case
  proof (cases "Set_insert_body H s k")
    case (Found i)
    have "Some (r, s') = Some (False, s)"
      using Suc.prems(2) unfolding step Found by simp
    then have rs: "r = False" "s' = s" by simp_all
    have "k \<in> elements s {}" using body unfolding Found by simp
    then have "elements s {} = insert k (elements s {})" by auto
    moreover have "\<exists>i. capacity_m s = capacity_m s * 2 ^ i" using c0 ..
    ultimately show ?thesis unfolding rs using inv \<open>k \<in> elements s {}\<close> by (intro conjI) simp_all
  next
    case (Placed s1 i)
    have "Some (r, s') = Some (True, s1)"
      using Suc.prems(2) unfolding step Placed by simp
    then have rs: "r = True" "s' = s1" by simp_all
    have b: "k \<notin> elements s {}" "table_inv H s1 {}"
      "elements s1 {} = insert k (elements s {})" "capacity_m s1 = capacity_m s * 2 ^ 0"
      using body unfolding Placed by simp_all
    have "\<exists>i. capacity_m s1 = capacity_m s * 2 ^ i" using b(4) ..
    then show ?thesis unfolding rs using b(1-3) by (intro conjI) simp_all
  next
    case (Grow s1)
    have st: "(case Set_expand_with (Set_insert n H) s1 of
              None \<Rightarrow> None
            | Some s'' \<Rightarrow> Set_insert n H s'' k) = Some (r, s')"
      using Suc.prems(2) unfolding step Grow by simp
    then obtain s2 where s2: "Set_expand_with (Set_insert n H) s1 = Some s2"
      by (cases "Set_expand_with (Set_insert n H) s1") simp_all
    have s2i: "Set_insert n H s2 k = Some (r, s')"
      using st unfolding s2 by simp
    have g: "k \<notin> elements s {}" "table_inv H s1 {}" "elements s1 {} = elements s {}"
      "capacity_m s1 = capacity_m s"
      using body unfolding Grow by simp_all
    note p1 = table_inv_props[OF g(2)]
    from g(2) obtain j where j: "j \<le> 31" "capacity_m s1 = 2 ^ j"
      unfolding table_inv_def by blast
    define cap where "cap = capacity_m s1 * 2"
    define m where "m = unat (cap + of_nat (hop_bucket TYPE('h)))"
    define t :: "('k, 'h) hop_base" where
      "t = \<lparr> keys_m = replicate m 0, hops_m = replicate m 0, size_m = 0, capacity_m = cap \<rparr>"
    define it where "it = [0 ..< unat (capacity_m s1 + of_nat (hop_bucket TYPE('h)))]"
    have re: "Set_reinsert (Set_insert n H) (keys_m s1) (hops_m s1) it t = Some s2"
      using s2 unfolding Set_expand_with_def Let_def t_def m_def cap_def it_def .
    have ct: "capacity_m t = cap" by (simp add: t_def)
    have nz: "cap \<noteq> 0"
    proof
      assume z: "cap = 0"
      then have "capacity_m t = 0" using ct by simp
      from Set_reinsert_capacity_0[OF this re] have "capacity_m s2 = 0" using ct z by simp
      then show False using s2i by (simp add: Set_insert_capacity_0)
    qed
    have cj: "cap = 2 ^ Suc j" using j(2) by (simp add: cap_def)
    have sj: "Suc j \<le> 31"
    proof (rule ccontr)
      assume "\<not> Suc j \<le> 31"
      then have "j = 31" using j(1) by simp
      then have "cap = 0" using cj by simp
      with nz show False by simp
    qed
    have ft: "table_inv H t {}" "elements t {} = {}"
      unfolding t_def m_def
      by (rule fresh_table_inv(1)[OF p1(1) sj cj]) (rule fresh_table_inv(2)[OF p1(1) sj cj])
    have R: "table_inv H s2 {} \<and>
        elements s2 {} = elements t {} \<union>
          {keys_m s1 ! i | i. i \<in> set it \<and> occupied (hops_m s1) i} \<and>
        (\<exists>i. capacity_m s2 = capacity_m t * 2 ^ i)"
    proof (rule Set_reinsert_inv[where ins = "Set_insert n H" and H = H, OF _ ft(1) re])
      fix s0 s0' :: "('k, 'h) hop_base" and k0 r0
      assume "table_inv H s0 {}" "Set_insert n H s0 k0 = Some (r0, s0')"
      from Suc.IH[OF this]
      show "table_inv H s0' {} \<and> elements s0' {} = insert k0 (elements s0 {}) \<and>
        (\<exists>i. capacity_m s0' = capacity_m s0 * 2 ^ i)" by (elim conjE) (intro conjI)
    qed
    note a1 = R[THEN conjunct1]
    note a2 = R[THEN conjunct2, THEN conjunct1]
    from R[THEN conjunct2, THEN conjunct2] obtain i where a3: "capacity_m s2 = cap * 2 ^ i"
      unfolding ct ..
    have "{keys_m s1 ! i | i. i \<in> set it \<and> occupied (hops_m s1) i} = elements s1 {}"
      unfolding elements_def live_def end_index_def it_def by simp
    then have e2: "elements s2 {} = elements s {}"
      unfolding a2 ft(2) g(3) by simp
    note B = Suc.IH[OF a1 s2i]
    note b1 = B[THEN conjunct1]
    note b2 = B[THEN conjunct2, THEN conjunct1]
    note b3 = B[THEN conjunct2, THEN conjunct2, THEN conjunct1]
    from B[THEN conjunct2, THEN conjunct2, THEN conjunct2]
    obtain i' where b4: "capacity_m s' = capacity_m s2 * 2 ^ i'" ..
    have "capacity_m s' = capacity_m s * 2 ^ (Suc i + i')"
      unfolding b4 a3 cap_def g(4) by (simp add: power_add)
    then have "\<exists>i. capacity_m s' = capacity_m s * 2 ^ i" ..
    then show ?thesis using b1 b2 b3 unfolding e2 by (intro conjI)
  qed
qed

section \<open>Well-formed tables: construction, removal, lookup\<close>

lemma Set_new_wf:
  assumes v: "valid_hop_size TYPE('h::len)" and n: "1 \<le> unat n" "unat n \<le> 2 ^ 31"
  shows "wf_table H (Set_new n :: ('k::zero, 'h) hop_base)"
    "elements (Set_new n :: ('k::zero, 'h) hop_base) {} = {}"
proof -
  from npot32_spec[OF n] obtain k where k: "k \<le> 31" "npot32 n = 2 ^ k" by blast
  show "wf_table H (Set_new n :: ('k::zero, 'h) hop_base)"
    unfolding wf_table_def Set_new_def Set_init_internal_def Let_def
    by (rule fresh_table_inv(1)[OF v k])
  show "elements (Set_new n :: ('k::zero, 'h) hop_base) {} = {}"
    unfolding Set_new_def Set_init_internal_def Let_def
    by (rule fresh_table_inv(2)[OF v k])
qed

lemma Set_default_wf:
  assumes v: "valid_hop_size TYPE('h::len)"
  shows "wf_table H (Set_default :: ('k::zero, 'h) hop_base)"
    "elements (Set_default :: ('k::zero, 'h) hop_base) {} = {}"
proof -
  have "unat (of_nat (HopSize TYPE('h)) :: 32 word) = LENGTH('h)"
    using v by (auto simp: valid_hop_size_def HopSize_def)
  then have n: "1 \<le> unat (of_nat (HopSize TYPE('h)) :: 32 word)"
    "unat (of_nat (HopSize TYPE('h)) :: 32 word) \<le> 2 ^ 31"
    using v by (auto simp: valid_hop_size_def)
  show "wf_table H (Set_default :: ('k::zero, 'h) hop_base)"
    unfolding Set_default_def by (rule Set_new_wf(1)[OF v n])
  show "elements (Set_default :: ('k::zero, 'h) hop_base) {} = {}"
    unfolding Set_default_def by (rule Set_new_wf(2)[OF v n])
qed

lemma Dict_default_wf:
  assumes v: "valid_hop_size TYPE('h::len)"
  shows "wf_table H (Dict_default :: ('k::zero, 'v::zero, 'h) dict)"
    "elements (Dict_default :: ('k::zero, 'v::zero, 'h) dict) {} = {}"
proof -
  have "wf_table H (key_table (Dict_default :: ('k, 'v, 'h) dict))"
    unfolding Dict_init_key_table by (rule Set_default_wf(1)[OF v])
  then show "wf_table H (Dict_default :: ('k::zero, 'v::zero, 'h) dict)" by simp
  have "elements (key_table (Dict_default :: ('k, 'v, 'h) dict)) {} = {}"
    unfolding Dict_init_key_table by (rule Set_default_wf(2)[OF v])
  then show "elements (Dict_default :: ('k::zero, 'v::zero, 'h) dict) {} = {}" by simp
qed

lemma Set_insert_wf:
  fixes s :: "('k::zero, 'h::len) hop_base"
  assumes "wf_table H s" "Set_insert n H s k = Some (r, s')"
  shows "wf_table H s'" "elements s' {} = insert k (elements s {})"
    "r \<longleftrightarrow> k \<notin> elements s {}" "\<exists>i. capacity_m s' = capacity_m s * 2 ^ i"
  using Set_insert_inv[OF assms(1)[unfolded wf_table_def] assms(2)]
  unfolding wf_table_def by simp_all

lemma Dict_insert_wf:
  fixes d :: "('k::zero, 'v::zero, 'h::len) dict"
  assumes "wf_table H d" "Dict_insert n H d k v = Some (i, d')"
  shows "wf_table H d'" "elements d' {} = insert k (elements d {})"
    "\<exists>i. capacity_m d' = capacity_m d * 2 ^ i"
proof -
  from Dict_insert_Some_key_table[OF assms(2)] obtain b where
    b: "Set_insert n H (key_table d) k = Some (b, key_table d')" ..
  have w: "wf_table H (key_table d)" using assms(1) by simp
  note r = Set_insert_wf[OF w b]
  show "wf_table H d'" using r(1) by simp
  show "elements d' {} = insert k (elements d {})" using r(2) by simp
  show "\<exists>i. capacity_m d' = capacity_m d * 2 ^ i" using r(4) by simp
qed

lemma Set_remove_wf:
  fixes s :: "('k, 'h::len) hop_base"
  assumes w: "wf_table H s"
  shows "wf_table H (snd (Set_remove H s k))"
    "elements (snd (Set_remove H s k)) {} = elements s {} - {k}"
    "fst (Set_remove H s k) \<longleftrightarrow> k \<in> elements s {}"
    "keys_m (snd (Set_remove H s k)) = keys_m s"
    "capacity_m (snd (Set_remove H s k)) = capacity_m s"
    "live (snd (Set_remove H s k)) =
       live s - {find_internal s (get_bucket_index H s k) k}"
proof -
  note inv = w[unfolded wf_table_def]
  note p = table_inv_props[OF inv]
  let ?b = "get_bucket_index H s k"
  let ?r = "find_internal s ?b k"
  note ft = find_internal_table[OF inv, of k]
  have all: "wf_table H (snd (Set_remove H s k)) \<and>
    elements (snd (Set_remove H s k)) {} = elements s {} - {k} \<and>
    (fst (Set_remove H s k) \<longleftrightarrow> k \<in> elements s {}) \<and>
    keys_m (snd (Set_remove H s k)) = keys_m s \<and>
    capacity_m (snd (Set_remove H s k)) = capacity_m s \<and>
    live (snd (Set_remove H s k)) = live s - {?r}"
  proof (cases "?r = end_index s")
    case True
    then have "Set_remove H s k = (False, s)" by (simp add: Set_remove_def Let_def)
    moreover have "k \<notin> elements s {}" using ft True by auto
    moreover have "?r \<notin> live s" using True by (simp add: live_def)
    ultimately show ?thesis using w by simp
  next
    case False
    then have f: "?r < end_index s" "keys_m s ! ?r = k" "owns (hops_m s) ?b ?r"
      "k \<in> elements s {}" using ft by auto
    define h1 where "h1 = (hops_m s)[?b := hops_m s ! ?b XOR push_bit (?r - ?b + 1) 1]"
    define h2 where "h2 = h1[?r := h1 ! ?r XOR 1]"
    define s2 where "s2 = s\<lparr>hops_m := h2, size_m := size_m s - 1\<rparr>"
    have eq: "Set_remove H s k = (True, s2)"
      using False unfolding Set_remove_def Let_def s2_def h2_def h1_def by simp
    note t = table_remove[OF inv p(6)[of k] f(3), folded h1_def, folded h2_def, folded s2_def]
    have e: "end_index s2 = end_index s" by (simp add: end_index_def s2_def)
    note d = slots_invD[OF p(4)]
    have l2: "?r < length h1" using f(1) d(2) by (simp add: h1_def)
    have oc: "occupied h2 i \<longleftrightarrow> occupied (hops_m s) i \<and> i \<noteq> ?r" for i
    proof -
      have "occupied h2 i \<longleftrightarrow> (occupied h1 i \<noteq> (i = ?r))"
        unfolding h2_def by (rule occupied_xor_1[OF l2])
      also have "occupied h1 i \<longleftrightarrow> occupied (hops_m s) i"
        unfolding h1_def by (rule occupied_xor_push) simp
      finally show ?thesis using d(3)[OF p(6)[of k] f(3)] by auto
    qed
    have hs2: "hops_m s2 = h2" by (simp add: s2_def)
    have "live s2 = live s - {?r}"
      unfolding live_def e hs2 by (auto simp: oc)
    moreover have "keys_m s2 = keys_m s" by (simp add: s2_def)
    ultimately show ?thesis
      unfolding eq wf_table_def using t f(2,4) by simp
  qed
  show "wf_table H (snd (Set_remove H s k))"
    "elements (snd (Set_remove H s k)) {} = elements s {} - {k}"
    "fst (Set_remove H s k) \<longleftrightarrow> k \<in> elements s {}"
    "keys_m (snd (Set_remove H s k)) = keys_m s"
    "capacity_m (snd (Set_remove H s k)) = capacity_m s"
    "live (snd (Set_remove H s k)) =
       live s - {find_internal s (get_bucket_index H s k) k}"
    using all by blast+
qed

lemma Dict_erase_wf:
  fixes d :: "('k, 'v, 'h::len) dict"
  assumes w: "wf_table H d"
  shows "wf_table H (snd (Dict_erase H d k))"
    "elements (snd (Dict_erase H d k)) {} = elements d {} - {k}"
proof -
  have w': "wf_table H (key_table d)" using w by simp
  note r = Set_remove_wf[OF w', of k]
  show "wf_table H (snd (Dict_erase H d k))"
    using r(1) unfolding Dict_erase_key_table(2)[symmetric] by simp
  show "elements (snd (Dict_erase H d k)) {} = elements d {} - {k}"
    using r(2) unfolding Dict_erase_key_table(2)[symmetric] by simp
qed

lemma iter_next_stay:
  "index \<ge> end_index s \<or> occupied (hops_m s) index \<Longrightarrow> iter_next s index = index"
  by (subst iter_next.simps) auto

lemma wf_find_position:
  fixes s :: "('k, 'h::len, 'z) hop_base_scheme"
  assumes w: "wf_table H s"
  shows "iter_next s (find_internal s (get_bucket_index H s k) k) =
      find_internal s (get_bucket_index H s k) k"
    and "iter_next s (end_index s) = end_index s"
    and "find_internal s (get_bucket_index H s k) k \<noteq> end_index s \<longleftrightarrow> k \<in> elements s {}"
proof -
  note ft = find_internal_table[OF w[unfolded wf_table_def], of k]
  show "iter_next s (find_internal s (get_bucket_index H s k) k) =
      find_internal s (get_bucket_index H s k) k"
    using ft by (intro iter_next_stay) auto
  show "iter_next s (end_index s) = end_index s"
    by (intro iter_next_stay) simp
  show "find_internal s (get_bucket_index H s k) k \<noteq> end_index s \<longleftrightarrow> k \<in> elements s {}"
    using ft by auto
qed

lemma Set_find_iff:
  assumes w: "wf_table H s"
  shows "Set_find H s k \<noteq> Set_end s \<longleftrightarrow> k \<in> elements s {}"
  unfolding Set_find_def Set_end_def Let_def wf_find_position(1,2)[OF w]
  by (rule wf_find_position(3)[OF w])

lemma Dict_find_iff:
  assumes w: "wf_table H d"
  shows "Dict_find H d k \<noteq> Dict_end d \<longleftrightarrow> k \<in> elements d {}"
  unfolding Dict_find_def Dict_end_def Dict_iterator_def Let_def wf_find_position(1,2)[OF w]
  by (rule wf_find_position(3)[OF w])

lemma Set_run_wf:
  fixes s :: "('k::zero, 'h::len) hop_base"
  assumes "wf_table H s" "Set_run n H ops s = Some s'"
  shows "wf_table H s' \<and> elements s' {} = keys_after ops (elements s {})"
  using assms
proof (induction ops arbitrary: s)
  case Nil
  then show ?case by simp
next
  case (Cons op ops)
  show ?case
  proof (cases op)
    case (Insert k)
    from Cons.prems(2) obtain r s1 where s1: "Set_insert n H s k = Some (r, s1)"
      "Set_run n H ops s1 = Some s'"
      unfolding Insert by (cases "Set_insert n H s k") auto
    note i = Set_insert_wf[OF Cons.prems(1) s1(1)]
    from Cons.IH[OF i(1) s1(2)] show ?thesis unfolding Insert i(2) by simp
  next
    case (Remove k)
    from Cons.prems(2) have s1: "Set_run n H ops (snd (Set_remove H s k)) = Some s'"
      unfolding Remove by simp
    note r = Set_remove_wf[OF Cons.prems(1), of k]
    from Cons.IH[OF r(1) s1] show ?thesis unfolding Remove r(2) by simp
  qed
qed

lemma Dict_run_wf:
  fixes d :: "('k::zero, 'v::zero, 'h::len) dict"
  assumes "wf_table H d" "Dict_run n H ops d = Some d'"
  shows "wf_table H d' \<and> elements d' {} = keys_after (map key_op ops) (elements d {})"
  using assms
proof (induction ops arbitrary: d)
  case Nil
  then show ?case by simp
next
  case (Cons op ops)
  show ?case
  proof (cases op)
    case (Put k v)
    from Cons.prems(2) obtain i d1 where d1: "Dict_insert n H d k v = Some (i, d1)"
      "Dict_run n H ops d1 = Some d'"
      unfolding Put by (cases "Dict_insert n H d k v") auto
    note i = Dict_insert_wf[OF Cons.prems(1) d1(1)]
    from Cons.IH[OF i(1) d1(2)] show ?thesis unfolding Put i(2) by simp
  next
    case (Erase k)
    from Cons.prems(2) have d1: "Dict_run n H ops (snd (Dict_erase H d k)) = Some d'"
      unfolding Erase by simp
    note r = Dict_erase_wf[OF Cons.prems(1), of k]
    from Cons.IH[OF r(1) d1] show ?thesis unfolding Erase r(2) by simp
  qed
qed

section \<open>More keys of one bucket than a neighbourhood holds\<close>

text \<open>
  The bucket index depends on the low 32 bits of the hash only.  A well-formed table
  keeps every key within \<open>hop_bucket\<close> slots of its bucket, so it holds at most
  \<open>hop_bucket\<close> keys whose hashes agree in these bits, whatever its capacity.
\<close>

lemma get_bucket_index_low:
  "get_bucket_index H s k = unat ((ucast (H k) :: 32 word) AND (capacity_m s - 1))"
proof -
  have "(ucast (a AND ucast c) :: 32 word) = ucast a AND c" for a :: "64 word" and c :: "32 word"
    by (rule bit_word_eqI) (auto simp: bit_simps)
  then show ?thesis unfolding get_bucket_index_def by simp
qed

lemma wf_home_card:
  fixes s :: "('k, 'h::len, 'z) hop_base_scheme"
  assumes w: "wf_table H s" and K: "K \<subseteq> elements s {}"
    and b: "\<forall>k\<in>K. get_bucket_index H s k = b"
  shows "finite K" "card K \<le> hop_bucket TYPE('h)"
proof -
  note inv = w[unfolded wf_table_def]
  define f where "f k = find_internal s b k" for k
  have p: "b \<le> f k \<and> f k < b + hop_bucket TYPE('h) \<and> keys_m s ! f k = k" if "k \<in> K" for k
  proof -
    from that K have e: "k \<in> elements s {}" by blast
    from that b have bk: "get_bucket_index H s k = b" by simp
    from find_internal_table[OF inv, of k] e have
      o: "owns (hops_m s) b (f k)" and k: "keys_m s ! f k = k"
      unfolding f_def bk by simp_all
    from owns_bound[OF o] have "b \<le> f k" "f k < b + hop_bucket TYPE('h)"
      by (auto simp: hop_bucket_def)
    with k show ?thesis by simp
  qed
  have inj: "inj_on f K"
  proof (rule inj_onI)
    fix x y assume x: "x \<in> K" and y: "y \<in> K" and e: "f x = f y"
    have "x = keys_m s ! f x" by (rule p[OF x, THEN conjunct2, THEN conjunct2, symmetric])
    also have "\<dots> = keys_m s ! f y" by (rule arg_cong[OF e])
    also have "\<dots> = y" by (rule p[OF y, THEN conjunct2, THEN conjunct2])
    finally show "x = y" .
  qed
  have sub: "f ` K \<subseteq> {b ..< b + hop_bucket TYPE('h)}"
  proof
    fix i assume "i \<in> f ` K"
    then obtain k where k: "k \<in> K" and i: "i = f k" by blast
    from p[OF k] show "i \<in> {b ..< b + hop_bucket TYPE('h)}" unfolding i by simp
  qed
  have fi: "finite (f ` K)" by (rule finite_subset[OF sub]) simp
  show "finite K" by (rule finite_imageD[OF fi inj])
  have "card K = card (f ` K)" by (rule card_image[OF inj, symmetric])
  also have "\<dots> \<le> card {b ..< b + hop_bucket TYPE('h)}" by (rule card_mono[OF _ sub]) simp
  finally show "card K \<le> hop_bucket TYPE('h)" by simp
qed

lemma wf_low_hash_card:
  fixes s :: "('k, 'h::len, 'z) hop_base_scheme"
  assumes w: "wf_table H s" and K: "K \<subseteq> elements s {}"
    and h: "\<forall>k\<in>K. (ucast (H k) :: 32 word) = h"
  shows "card K \<le> hop_bucket TYPE('h)"
proof (rule wf_home_card(2)[OF w K])
  show "\<forall>k\<in>K. get_bucket_index H s k = unat (h AND (capacity_m s - 1))"
    using h by (simp add: get_bucket_index_low)
qed

lemma keys_after_inserts: "keys_after (map Insert ks) A = A \<union> set ks"
  by (induction ks arbitrary: A) auto

lemma valid_hop_size_8: "valid_hop_size TYPE(8)"
  by (simp add: valid_hop_size_def)

lemma colliding_keys_low: "\<forall>k\<in>set colliding_keys. (ucast (word_hash k) :: 32 word) = 0"
  by code_simp

lemma colliding_keys_distinct: "distinct colliding_keys"
  by code_simp

lemma colliding_keys_length: "length colliding_keys = 8"
  by (simp add: colliding_keys_def)

lemma colliding_keys_not_held:
  fixes s :: "(64 word, 8) hop_base"
  assumes "wf_table word_hash s"
  shows "\<not> set colliding_keys \<subseteq> elements s {}"
proof
  assume "set colliding_keys \<subseteq> elements s {}"
  from wf_low_hash_card[OF assms this colliding_keys_low]
  have "card (set colliding_keys) \<le> hop_bucket TYPE(8)" .
  moreover have "card (set colliding_keys) = 8"
    using distinct_card[OF colliding_keys_distinct] colliding_keys_length by simp
  ultimately show False by (simp add: hop_bucket_def)
qed

lemma set_colliding_a_run:
  "Set_run 1 word_hash (take 4 colliding_inserts) Set_default = Some set_colliding_a"
  by code_simp

lemma set_colliding_b_run:
  "Set_run 1 word_hash (drop 4 colliding_inserts) Set_default = Some set_colliding_b"
  by code_simp

lemma default_64_elements: "elements (Set_default :: (64 word, 8) hop_base) {} = {}"
  by (rule Set_default_wf(2)[OF valid_hop_size_8])

lemma set_colliding_a_wf:
  "wf_table word_hash set_colliding_a"
  "elements set_colliding_a {} = set (take 4 colliding_keys)"
  using Set_run_wf[OF Set_default_wf(1)[OF valid_hop_size_8] set_colliding_a_run]
  by (simp_all add: colliding_inserts_def take_map keys_after_inserts default_64_elements)

lemma set_colliding_b_wf:
  "wf_table word_hash set_colliding_b"
  "elements set_colliding_b {} = set (drop 4 colliding_keys)"
  using Set_run_wf[OF Set_default_wf(1)[OF valid_hop_size_8] set_colliding_b_run]
  by (simp_all add: colliding_inserts_def drop_map keys_after_inserts default_64_elements)

lemma colliding_halves:
  "set (take 4 colliding_keys) \<union> set (drop 4 colliding_keys) = set colliding_keys"
  "set (take 4 colliding_keys) \<inter> set (drop 4 colliding_keys) = {}"
proof -
  show "set (take 4 colliding_keys) \<union> set (drop 4 colliding_keys) = set colliding_keys"
    unfolding set_append[symmetric] by simp
  show "set (take 4 colliding_keys) \<inter> set (drop 4 colliding_keys) = {}"
    by (rule set_take_disj_set_drop_if_distinct[OF colliding_keys_distinct]) simp
qed

section \<open>Round trip of \<^verbatim>\<open>insert\<close>, \<^verbatim>\<open>find\<close> and \<^verbatim>\<open>erase\<close>\<close>

text \<open>
  Claim C1, as stated, fails for the inserts of the eight keys \<open>i * 2 ^ 32\<close> into the
  default set of hop size 8, under the hash function that returns the key: the first
  seven inserts return, and the insert of the eighth returns at no call depth (the set
  grows again and again and never has room for eight keys of one bucket), so no set is
  left in which \<^verbatim>\<open>find\<close> could succeed for the eight keys.
\<close>

theorem colliding_inserts_never_return_counterexample:
  "Set_run 1 word_hash (take 7 colliding_inserts) (Set_default :: (64 word, 8) hop_base) =
     Some set_colliding_7 \<and>
   (\<forall>n. Set_insert n word_hash set_colliding_7 (colliding_keys ! 7) = None) \<and>
   (\<forall>n. Set_run n word_hash colliding_inserts (Set_default :: (64 word, 8) hop_base) = None)"
proof (intro conjI allI)
  show r7: "Set_run 1 word_hash (take 7 colliding_inserts)
      (Set_default :: (64 word, 8) hop_base) = Some set_colliding_7"
    by code_simp
  note w7 = Set_run_wf[OF Set_default_wf(1)[OF valid_hop_size_8] r7]
  have e7: "elements set_colliding_7 {} = set (take 7 colliding_keys)"
    using w7
    by (simp add: colliding_inserts_def take_map keys_after_inserts default_64_elements)
  have k: "insert (colliding_keys ! 7) (set (take 7 colliding_keys)) = set colliding_keys"
    by code_simp
  fix n
  show "Set_insert n word_hash set_colliding_7 (colliding_keys ! 7) = None"
  proof (rule ccontr)
    assume "Set_insert n word_hash set_colliding_7 (colliding_keys ! 7) \<noteq> None"
    then obtain r s' where
      i: "Set_insert n word_hash set_colliding_7 (colliding_keys ! 7) = Some (r, s')"
      by auto
    note x = Set_insert_wf[OF w7[THEN conjunct1] i]
    have "set colliding_keys \<subseteq> elements s' {}" unfolding x(2) e7 k ..
    with colliding_keys_not_held[OF x(1)] show False ..
  qed
  show "Set_run n word_hash colliding_inserts (Set_default :: (64 word, 8) hop_base) = None"
  proof (rule ccontr)
    assume "Set_run n word_hash colliding_inserts (Set_default :: (64 word, 8) hop_base) \<noteq> None"
    then obtain s' where
      r: "Set_run n word_hash colliding_inserts (Set_default :: (64 word, 8) hop_base) = Some s'"
      by auto
    note x = Set_run_wf[OF Set_default_wf(1)[OF valid_hop_size_8] r]
    have "elements s' {} = set colliding_keys"
      using x by (simp add: colliding_inserts_def keys_after_inserts default_64_elements)
    then have "set colliding_keys \<subseteq> elements s' {}" by simp
    with colliding_keys_not_held[OF x[THEN conjunct1]] show False ..
  qed
qed

text \<open>
  Claim C1, amended.  Run any sequence of inserts and removals on a well-formed set, or
  of inserts and erasures on a well-formed map, in which every insert returns: the
  table stays well-formed, and \<^verbatim>\<open>find(k)\<close> returns a position other than \<^verbatim>\<open>end()\<close>
  exactly for the keys \<open>k\<close> that were found before or inserted, and not removed since.
  So \<^verbatim>\<open>find\<close> succeeds for every inserted key until it is erased, and fails after the
  erasure.
\<close>

theorem find_after_inserts_and_erases:
  fixes s :: "('k::zero, 'h::len) hop_base" and d :: "('k, 'v::zero, 'h) dict"
  shows
  "(wf_table H s \<and> Set_run n H ops s = Some s' \<longrightarrow>
      wf_table H s' \<and>
      (\<forall>k. Set_find H s' k \<noteq> Set_end s' \<longleftrightarrow>
           k \<in> keys_after ops {k. Set_find H s k \<noteq> Set_end s})) \<and>
   (wf_table H d \<and> Dict_run n H dops d = Some d' \<longrightarrow>
      wf_table H d' \<and>
      (\<forall>k. Dict_find H d' k \<noteq> Dict_end d' \<longleftrightarrow>
           k \<in> keys_after (map key_op dops) {k. Dict_find H d k \<noteq> Dict_end d}))"
proof (rule conjI; rule impI)
  assume a: "wf_table H s \<and> Set_run n H ops s = Some s'"
  then have w: "wf_table H s" and r: "Set_run n H ops s = Some s'" by simp_all
  note x = Set_run_wf[OF w r]
  show "wf_table H s' \<and>
      (\<forall>k. Set_find H s' k \<noteq> Set_end s' \<longleftrightarrow>
           k \<in> keys_after ops {k. Set_find H s k \<noteq> Set_end s})"
    using x by (simp add: Set_find_iff[OF w] Set_find_iff[OF x[THEN conjunct1]])
next
  assume a: "wf_table H d \<and> Dict_run n H dops d = Some d'"
  then have w: "wf_table H d" and r: "Dict_run n H dops d = Some d'" by simp_all
  note x = Dict_run_wf[OF w r]
  show "wf_table H d' \<and>
      (\<forall>k. Dict_find H d' k \<noteq> Dict_end d' \<longleftrightarrow>
           k \<in> keys_after (map key_op dops) {k. Dict_find H d k \<noteq> Dict_end d})"
    using x by (simp add: Dict_find_iff[OF w] Dict_find_iff[OF x[THEN conjunct1]])
qed

lemma set_example_run:
  "Set_run 2 ident_hash set_ops_example Set_default = Some set_example_result"
  by code_simp

lemma dict_example_run:
  "Dict_run 2 ident_hash dict_ops_example Dict_default = Some dict_example_result"
  by code_simp

theorem find_after_inserts_and_erases_witness:
  "wf_table ident_hash (Set_default :: (32 word, 8) hop_base) \<and>
   Set_run 2 ident_hash set_ops_example Set_default = Some set_example_result \<and>
   wf_table ident_hash (Dict_default :: (32 word, 32 word, 8) dict) \<and>
   Dict_run 2 ident_hash dict_ops_example Dict_default = Some dict_example_result \<and>
   Set_find ident_hash set_example_result 8 \<noteq> Set_end set_example_result \<and>
   Set_find ident_hash set_example_result 1 = Set_end set_example_result \<and>
   Dict_find ident_hash dict_example_result 56 \<noteq> Dict_end dict_example_result \<and>
   Dict_find ident_hash dict_example_result 16 = Dict_end dict_example_result"
proof -
  have ws: "wf_table ident_hash (Set_default :: (32 word, 8) hop_base)"
    by (rule Set_default_wf(1)[OF valid_hop_size_8])
  have wd: "wf_table ident_hash (Dict_default :: (32 word, 32 word, 8) dict)"
    by (rule Dict_default_wf(1)[OF valid_hop_size_8])
  note t = find_after_inserts_and_erases[of ident_hash "Set_default :: (32 word, 8) hop_base" 2
      set_ops_example set_example_result "Dict_default :: (32 word, 32 word, 8) dict"
      dict_ops_example dict_example_result]
  note ta = t[THEN conjunct1, rule_format, OF conjI[OF ws set_example_run]]
  note tb = t[THEN conjunct2, rule_format, OF conjI[OF wd dict_example_run]]
  have a: "Set_find ident_hash set_example_result k \<noteq> Set_end set_example_result \<longleftrightarrow>
      k \<in> keys_after set_ops_example
        {k. Set_find ident_hash (Set_default :: (32 word, 8) hop_base) k \<noteq>
            Set_end (Set_default :: (32 word, 8) hop_base)}"
    for k by (rule ta[THEN conjunct2, rule_format])
  have b: "Dict_find ident_hash dict_example_result k \<noteq> Dict_end dict_example_result \<longleftrightarrow>
      k \<in> keys_after (map key_op dict_ops_example)
        {k. Dict_find ident_hash (Dict_default :: (32 word, 32 word, 8) dict) k \<noteq>
            Dict_end (Dict_default :: (32 word, 32 word, 8) dict)}"
    for k by (rule tb[THEN conjunct2, rule_format])
  have "Set_find ident_hash set_example_result 8 \<noteq> Set_end set_example_result"
    unfolding a by (simp add: set_ops_example_def)
  moreover have "Set_find ident_hash set_example_result 1 = Set_end set_example_result"
    using a[of 1] by (simp add: set_ops_example_def)
  moreover have "Dict_find ident_hash dict_example_result 56 \<noteq> Dict_end dict_example_result"
    unfolding b by (simp add: dict_ops_example_def)
  moreover have "Dict_find ident_hash dict_example_result 16 = Dict_end dict_example_result"
    using b[of 16] by (simp add: dict_ops_example_def)
  ultimately show ?thesis using ws wd set_example_run dict_example_run by (intro conjI)
qed

section \<open>The neighbourhood of a key\<close>

lemma wf_slot_near_home:
  fixes s :: "('k, 'h::len, 'z) hop_base_scheme"
  assumes w: "wf_table H s" and i: "i < end_index s" "occupied (hops_m s) i"
  defines "b \<equiv> get_bucket_index H s (keys_m s ! i)"
  shows "b \<le> i \<and> i < b + hop_bucket TYPE('h) \<and> find_internal s b (keys_m s ! i) = i"
proof -
  note inv = w[unfolded wf_table_def]
  note p = table_inv_props[OF inv]
  note d = slots_invD[OF p(4)]
  have o: "owns (hops_m s) b i" unfolding b_def using d(4)[OF i] by simp
  from owns_bound[OF o] have "b \<le> i" "i < b + hop_bucket TYPE('h)"
    by (auto simp: hop_bucket_def)
  moreover have "find_internal s b (keys_m s ! i) = i"
  proof -
    from find_internal_table[OF inv, of "keys_m s ! i", folded b_def]
    consider "keys_m s ! i \<notin> elements s {}"
      | "find_internal s b (keys_m s ! i) < end_index s"
        "occupied (hops_m s) (find_internal s b (keys_m s ! i))"
        "keys_m s ! (find_internal s b (keys_m s ! i)) = keys_m s ! i"
      by blast
    then show ?thesis
    proof cases
      case 1
      then show ?thesis using i unfolding elements_def live_def by blast
    next
      case 2
      then show ?thesis using d(5)[OF 2(1) i(1) 2(2) i(2)] by simp
    qed
  qed
  ultimately show ?thesis by simp
qed

text \<open>
  Claim C2.  After an insert that returns, on a well-formed set or map and whatever
  displacements and growths it went through, every occupied slot \<open>i\<close> lies at or after
  the home bucket \<open>b\<close> of its key and less than \<open>hop_bucket\<close> slots from it, and
  \<^verbatim>\<open>find_internal\<close> started at \<open>b\<close> returns \<open>i\<close> for that key.
\<close>

theorem live_keys_within_neighbourhood:
  fixes s :: "('k::zero, 'h::len) hop_base" and d :: "('k, 'v::zero, 'h) dict"
  shows
  "(wf_table H s \<and> Set_insert n H s key = Some (r, s') \<longrightarrow>
      (\<forall>i. i < end_index s' \<and> occupied (hops_m s') i \<longrightarrow>
         get_bucket_index H s' (keys_m s' ! i) \<le> i \<and>
         i < get_bucket_index H s' (keys_m s' ! i) + hop_bucket TYPE('h) \<and>
         find_internal s' (get_bucket_index H s' (keys_m s' ! i)) (keys_m s' ! i) = i)) \<and>
   (wf_table H d \<and> Dict_insert n' H d key' val = Some (pos, d') \<longrightarrow>
      (\<forall>i. i < end_index d' \<and> occupied (hops_m d') i \<longrightarrow>
         get_bucket_index H d' (keys_m d' ! i) \<le> i \<and>
         i < get_bucket_index H d' (keys_m d' ! i) + hop_bucket TYPE('h) \<and>
         find_internal d' (get_bucket_index H d' (keys_m d' ! i)) (keys_m d' ! i) = i))"
proof (rule conjI; rule impI; rule allI; rule impI)
  fix i
  assume a: "wf_table H s \<and> Set_insert n H s key = Some (r, s')"
    and i: "i < end_index s' \<and> occupied (hops_m s') i"
  have w: "wf_table H s'" using a Set_insert_wf(1) by blast
  show "get_bucket_index H s' (keys_m s' ! i) \<le> i \<and>
         i < get_bucket_index H s' (keys_m s' ! i) + hop_bucket TYPE('h) \<and>
         find_internal s' (get_bucket_index H s' (keys_m s' ! i)) (keys_m s' ! i) = i"
    using wf_slot_near_home[OF w] i by blast
next
  fix i
  assume a: "wf_table H d \<and> Dict_insert n' H d key' val = Some (pos, d')"
    and i: "i < end_index d' \<and> occupied (hops_m d') i"
  have w: "wf_table H d'" using a Dict_insert_wf(1) by blast
  show "get_bucket_index H d' (keys_m d' ! i) \<le> i \<and>
         i < get_bucket_index H d' (keys_m d' ! i) + hop_bucket TYPE('h) \<and>
         find_internal d' (get_bucket_index H d' (keys_m d' ! i)) (keys_m d' ! i) = i"
    using wf_slot_near_home[OF w] i by blast
qed

lemma set_7_run:
  "Set_run 1 ident_hash [Insert 0, Insert 1, Insert 2, Insert 3, Insert 4, Insert 5, Insert 6]
     Set_default = Some set_7"
  by code_simp

lemma set_7_8_reached: "Set_insert 1 ident_hash set_7 8 = Some (True, set_7_8)"
  by code_simp

lemma dict_7_run:
  "Dict_run 1 ident_hash
     [Put 0 10, Put 8 11, Put 16 12, Put 24 13, Put 32 14, Put 40 15, Put 48 16]
     Dict_default = Some dict_7"
  by code_simp

lemma dict_7_56_reached: "Dict_insert 2 ident_hash dict_7 56 17 = Some (11, dict_7_56)"
  by code_simp

lemma set_7_wf: "wf_table ident_hash set_7"
  using Set_run_wf[OF Set_default_wf(1)[OF valid_hop_size_8] set_7_run] by simp

lemma dict_7_wf: "wf_table ident_hash dict_7"
  using Dict_run_wf[OF Dict_default_wf(1)[OF valid_hop_size_8] dict_7_run] by simp

theorem live_keys_within_neighbourhood_witness:
  "wf_table ident_hash set_7 \<and> Set_insert 1 ident_hash set_7 8 = Some (True, set_7_8) \<and>
   wf_table ident_hash dict_7 \<and> Dict_insert 2 ident_hash dict_7 56 17 = Some (11, dict_7_56) \<and>
   7 < end_index set_7_8 \<and> occupied (hops_m set_7_8) 7 \<and>
   get_bucket_index ident_hash set_7_8 (keys_m set_7_8 ! 7) \<le> 7 \<and>
   7 < get_bucket_index ident_hash set_7_8 (keys_m set_7_8 ! 7) + hop_bucket TYPE(8) \<and>
   find_internal set_7_8 (get_bucket_index ident_hash set_7_8 (keys_m set_7_8 ! 7))
     (keys_m set_7_8 ! 7) = 7 \<and>
   11 < end_index dict_7_56 \<and> occupied (hops_m dict_7_56) 11 \<and>
   get_bucket_index ident_hash dict_7_56 (keys_m dict_7_56 ! 11) \<le> 11 \<and>
   11 < get_bucket_index ident_hash dict_7_56 (keys_m dict_7_56 ! 11) + hop_bucket TYPE(8) \<and>
   find_internal dict_7_56 (get_bucket_index ident_hash dict_7_56 (keys_m dict_7_56 ! 11))
     (keys_m dict_7_56 ! 11) = 11"
proof -
  note t = live_keys_within_neighbourhood[where H = ident_hash and s = set_7 and n = 1
      and key = 8 and r = True and s' = set_7_8 and d = dict_7 and n' = 2 and key' = 56
      and val = 17 and pos = 11 and d' = dict_7_56]
  have s7: "7 < end_index set_7_8 \<and> occupied (hops_m set_7_8) 7" by code_simp
  have d11: "11 < end_index dict_7_56 \<and> occupied (hops_m dict_7_56) 11" by code_simp
  note a = t[THEN conjunct1, rule_format, OF conjI[OF set_7_wf set_7_8_reached] s7]
  note b = t[THEN conjunct2, rule_format, OF conjI[OF dict_7_wf dict_7_56_reached] d11]
  show ?thesis
    using set_7_wf set_7_8_reached dict_7_wf dict_7_56_reached s7 d11 a b
    by (intro conjI) simp_all
qed

section \<open>Inserting a key that is present\<close>

text \<open>
  Claim C4.  On a well-formed map that holds the key, \<^verbatim>\<open>insert(key, val)\<close> with any
  value returns the position at which \<^verbatim>\<open>find(key)\<close> reports the key, which is the
  slot holding it, and leaves the whole map as it was, the values and the size among
  the rest.  On a well-formed set that holds the key, \<^verbatim>\<open>insert(key)\<close> returns
  \<^verbatim>\<open>false\<close> (its result is a \<^verbatim>\<open>bool\<close>, not a position) and leaves the set as it was.
\<close>

theorem insert_of_present_key:
  fixes d :: "('k::zero, 'v::zero, 'h::len) dict" and s :: "('k, 'h) hop_base"
  shows
  "(wf_table H d \<and> has H d key \<longrightarrow>
      Dict_insert (Suc n) H d key val = Some (Dict_find H d key, d) \<and>
      Dict_find H d key = find_index H d key \<and>
      Dict_find H d key \<noteq> Dict_end d \<and>
      keys_m d ! (Dict_find H d key) = key) \<and>
   (wf_table H s \<and> has H s key \<longrightarrow> Set_insert (Suc n) H s key = Some (False, s))"
proof (rule conjI; rule impI)
  assume a: "wf_table H d \<and> has H d key"
  then have w: "wf_table H d" and h: "has H d key" by simp_all
  note inv = w[unfolded wf_table_def]
  note p = table_inv_props[OF inv]
  let ?r = "find_internal d (get_bucket_index H d key) key"
  have nf: "?r \<noteq> end_index d" using h by (simp add: has_def Let_def)
  then have body: "Dict_insert_body H d key val = Found ?r"
    by (simp add: Dict_insert_body_def Let_def)
  have it: "Dict_iterator d ?r = ?r"
    unfolding Dict_iterator_def wf_find_position(1)[OF w] ..
  have fd: "Dict_find H d key = ?r"
    unfolding Dict_find_def Let_def it ..
  have e: "Dict_end d = end_index d"
    unfolding Dict_end_def Dict_iterator_def wf_find_position(2)[OF w] ..
  have k: "keys_m d ! ?r = key"
    using find_internal_table[OF inv, of key] nf by auto
  show "Dict_insert (Suc n) H d key val = Some (Dict_find H d key, d) \<and>
      Dict_find H d key = find_index H d key \<and>
      Dict_find H d key \<noteq> Dict_end d \<and>
      keys_m d ! (Dict_find H d key) = key"
    unfolding fd e using p(2) body it nf k by (simp add: find_index_def)
next
  assume a: "wf_table H s \<and> has H s key"
  then have w: "wf_table H s" and h: "has H s key" by simp_all
  note p = table_inv_props[OF w[unfolded wf_table_def]]
  let ?r = "find_internal s (get_bucket_index H s key) key"
  have nf: "?r \<noteq> end_index s" using h by (simp add: has_def Let_def)
  then have body: "Set_insert_body H s key = Found ?r"
    by (simp add: Set_insert_body_def Let_def)
  show "Set_insert (Suc n) H s key = Some (False, s)"
    using p(2) body by simp
qed

lemma dict_8_reached: "Dict_insert 1 ident_hash Dict_default 8 5 = Some (0, dict_8)"
  by code_simp

lemma table_8_wf: "wf_table ident_hash table_8"
  by (rule Set_insert_wf(1)[OF Set_default_wf(1)[OF valid_hop_size_8] table_8_reached])

lemma dict_8_wf: "wf_table ident_hash dict_8"
  by (rule Dict_insert_wf(1)[OF Dict_default_wf(1)[OF valid_hop_size_8] dict_8_reached])

theorem insert_of_present_key_witness:
  "wf_table ident_hash dict_8 \<and> has ident_hash dict_8 8 \<and>
   wf_table ident_hash table_8 \<and> has ident_hash table_8 8 \<and>
   Dict_insert (Suc 0) ident_hash dict_8 8 77 = Some (Dict_find ident_hash dict_8 8, dict_8) \<and>
   Dict_find ident_hash dict_8 8 = 0 \<and>
   values_m dict_8 ! 0 = 5 \<and>
   Set_insert (Suc 0) ident_hash table_8 8 = Some (False, table_8)"
proof -
  have hd: "has ident_hash dict_8 8" by code_simp
  have hs: "has ident_hash table_8 8" by code_simp
  note t = insert_of_present_key[where H = ident_hash and d = dict_8 and key = 8 and n = 0
      and val = 77 and s = table_8]
  note a = t[THEN conjunct1, rule_format, OF conjI[OF dict_8_wf hd]]
  note b = t[THEN conjunct2, rule_format, OF conjI[OF table_8_wf hs]]
  have f: "find_index ident_hash dict_8 8 = 0" by code_simp
  have v: "values_m dict_8 ! 0 = 5" by (simp add: dict_8_def)
  show ?thesis
    using dict_8_wf hd table_8_wf hs a b f v by (intro conjI) simp_all
qed

section \<open>What \<^verbatim>\<open>erase\<close> and \<^verbatim>\<open>remove\<close> change\<close>

lemma erase_bits:
  fixes hs :: "'h::len word list"
  assumes b: "b < length hs" and ix: "index < length hs"
    and own: "owns hs b index" and occ: "occupied hs index"
  defines "h1 \<equiv> hs[b := hs ! b XOR push_bit (index - b + 1) 1]"
  defines "h2 \<equiv> h1[index := h1 ! index XOR 1]"
  shows "erased_bits hs h2 b index"
proof -
  define n where "n = index - b + 1"
  have h1': "h1 = hs[b := hs ! b XOR push_bit n 1]" unfolding h1_def n_def ..
  have n: "n < LENGTH('h)" "bit (hs ! b) n" "n \<noteq> 0"
    using owns_bound[OF own] own by (simp_all add: owns_def n_def)
  have o: "bit (hs ! index) 0" using occ by (simp add: occupied_iff)
  have h1: "bit (h1 ! i) m \<longleftrightarrow> (bit (hs ! i) m \<noteq> (i = b \<and> m = n))"
    if "i < length hs" for i m
    unfolding h1' using that n(1) b by (auto simp: nth_list_update bit_xor_push1)
  have h2: "bit (h2 ! i) m \<longleftrightarrow> (bit (h1 ! i) m \<noteq> (i = index \<and> m = 0))"
    if "i < length hs" for i m
    unfolding h2_def using that ix by (auto simp: nth_list_update bit_xor_1 h1')
  have "bit (h2 ! i) m \<longleftrightarrow>
      bit (hs ! i) m \<and> \<not> (i = index \<and> m = 0) \<and> \<not> (i = b \<and> m = n)"
    if "i < length hs" for i m
    unfolding h2[OF that] h1[OF that] using n(2,3) o by auto
  moreover have "length h2 = length hs" by (simp add: h2_def h1')
  ultimately show ?thesis unfolding erased_bits_def n_def by blast
qed

lemma wf_erase_bits:
  fixes s :: "('k, 'h::len, 'z) hop_base_scheme"
  assumes w: "wf_table H s" and h: "has H s key"
  defines "b \<equiv> get_bucket_index H s key"
  defines "index \<equiv> find_internal s b key"
  defines "h1 \<equiv> (hops_m s)[b := hops_m s ! b XOR push_bit (index - b + 1) 1]"
  shows "index \<noteq> end_index s" "erased_bits (hops_m s) (h1[index := h1 ! index XOR 1]) b index"
proof -
  note inv = w[unfolded wf_table_def]
  note p = table_inv_props[OF inv]
  note d = slots_invD[OF p(4)]
  show nf: "index \<noteq> end_index s" using h by (simp add: has_def Let_def index_def b_def)
  from find_internal_table[OF inv, of key, folded b_def, folded index_def] nf
  have f: "index < end_index s" "occupied (hops_m s) index" "owns (hops_m s) b index"
    by auto
  have bl: "b < length (hops_m s)" using p(6)[of key] d(2) by (simp add: b_def)
  have il: "index < length (hops_m s)" using f(1) d(2) by simp
  show "erased_bits (hops_m s) (h1[index := h1 ! index XOR 1]) b index"
    unfolding h1_def by (rule erase_bits[OF bl il f(3) f(2)])
qed

text \<open>
  Claim C10.  On a well-formed map or set that holds the key, \<^verbatim>\<open>erase\<close> (\<^verbatim>\<open>remove\<close>)
  returns \<^verbatim>\<open>true\<close>; the keys buffer, the values buffer of the map and the capacity are
  what they were, the size is one less, and the hop words differ from the old ones in
  two bits, now clear: the occupancy bit of the key's slot and the displacement bit for
  that slot in the word of the key's home bucket.  No element of the keys or values
  buffers is written, which is all a destructor call could show as in this model.
\<close>

theorem erase_changes_two_bits_and_size:
  fixes d :: "('k, 'v, 'h::len) dict" and s :: "('k, 'h) hop_base"
  shows
  "(wf_table H d \<and> has H d key \<longrightarrow>
      fst (Dict_erase H d key) \<and>
      keys_m (snd (Dict_erase H d key)) = keys_m d \<and>
      values_m (snd (Dict_erase H d key)) = values_m d \<and>
      capacity_m (snd (Dict_erase H d key)) = capacity_m d \<and>
      size_m (snd (Dict_erase H d key)) = size_m d - 1 \<and>
      erased_bits (hops_m d) (hops_m (snd (Dict_erase H d key)))
        (get_bucket_index H d key) (find_index H d key)) \<and>
   (wf_table H s \<and> has H s key \<longrightarrow>
      fst (Set_remove H s key) \<and>
      keys_m (snd (Set_remove H s key)) = keys_m s \<and>
      capacity_m (snd (Set_remove H s key)) = capacity_m s \<and>
      size_m (snd (Set_remove H s key)) = size_m s - 1 \<and>
      erased_bits (hops_m s) (hops_m (snd (Set_remove H s key)))
        (get_bucket_index H s key) (find_index H s key))"
proof (rule conjI; rule impI)
  assume a: "wf_table H d \<and> has H d key"
  then have w: "wf_table H d" and h: "has H d key" by simp_all
  note e = wf_erase_bits[OF w h]
  show "fst (Dict_erase H d key) \<and>
      keys_m (snd (Dict_erase H d key)) = keys_m d \<and>
      values_m (snd (Dict_erase H d key)) = values_m d \<and>
      capacity_m (snd (Dict_erase H d key)) = capacity_m d \<and>
      size_m (snd (Dict_erase H d key)) = size_m d - 1 \<and>
      erased_bits (hops_m d) (hops_m (snd (Dict_erase H d key)))
        (get_bucket_index H d key) (find_index H d key)"
    unfolding Dict_erase_def Let_def find_index_def using e by simp
next
  assume a: "wf_table H s \<and> has H s key"
  then have w: "wf_table H s" and h: "has H s key" by simp_all
  note e = wf_erase_bits[OF w h]
  show "fst (Set_remove H s key) \<and>
      keys_m (snd (Set_remove H s key)) = keys_m s \<and>
      capacity_m (snd (Set_remove H s key)) = capacity_m s \<and>
      size_m (snd (Set_remove H s key)) = size_m s - 1 \<and>
      erased_bits (hops_m s) (hops_m (snd (Set_remove H s key)))
        (get_bucket_index H s key) (find_index H s key)"
    unfolding Set_remove_def Let_def find_index_def using e by simp
qed

theorem erase_changes_two_bits_and_size_witness:
  "wf_table ident_hash dict_8 \<and> has ident_hash dict_8 8 \<and>
   wf_table ident_hash table_8 \<and> has ident_hash table_8 8 \<and>
   fst (Dict_erase ident_hash dict_8 8) \<and>
   keys_m (snd (Dict_erase ident_hash dict_8 8)) = keys_m dict_8 \<and>
   values_m (snd (Dict_erase ident_hash dict_8 8)) = values_m dict_8 \<and>
   size_m (snd (Dict_erase ident_hash dict_8 8)) = 0 \<and>
   fst (Set_remove ident_hash table_8 8) \<and>
   keys_m (snd (Set_remove ident_hash table_8 8)) = keys_m table_8 \<and>
   size_m (snd (Set_remove ident_hash table_8 8)) = 0"
proof -
  have hd: "has ident_hash dict_8 8" by code_simp
  have hs: "has ident_hash table_8 8" by code_simp
  note t = erase_changes_two_bits_and_size[where H = ident_hash and d = dict_8 and key = 8
      and s = table_8]
  note a = t[THEN conjunct1, rule_format, OF conjI[OF dict_8_wf hd]]
  note b = t[THEN conjunct2, rule_format, OF conjI[OF table_8_wf hs]]
  have sd: "size_m dict_8 - 1 = 0" by (simp add: dict_8_def)
  have ss: "size_m table_8 - 1 = 0" by (simp add: table_8_def)
  show ?thesis
    using dict_8_wf hd table_8_wf hs a b sd ss by (intro conjI) simp_all
qed

section \<open>The capacity\<close>

lemma pow2_chain:
  assumes i: "i \<le> 31" and j: "j \<le> 31" and c: "(2::32 word) ^ j = 2 ^ i * 2 ^ m"
  shows "i \<le> j"
proof -
  have e: "(2::32 word) ^ j = 2 ^ (i + m)" unfolding c by (rule power_add[symmetric])
  have im: "i + m \<le> 31"
  proof (rule ccontr)
    assume "\<not> i + m \<le> 31"
    then have "32 \<le> i + m" by simp
    then have "(2::32 word) ^ (i + m) = 0" by (simp only: exp_eq_zero_iff) simp
    then have "(2::32 word) ^ j = 0" unfolding e .
    with pow2_32_neq_0[OF j] show False ..
  qed
  have "unat ((2::32 word) ^ j) = unat ((2::32 word) ^ (i + m))"
    by (rule arg_cong[OF e])
  then have "(2::nat) ^ j = 2 ^ (i + m)"
    unfolding unat_pow2_32[OF j] unat_pow2_32[OF im] .
  then have "j = i + m" by (rule power_inject_exp[THEN iffD1, rotated]) simp
  then show ?thesis by simp
qed

lemma wf_insert_capacity:
  fixes s s' :: "('k, 'h::len, 'z) hop_base_scheme"
  assumes w: "wf_table H s" and w': "wf_table H s'"
    and c: "\<exists>m. capacity_m s' = capacity_m s * 2 ^ m"
  shows "\<exists>i j. i \<le> j \<and> j \<le> 31 \<and> capacity_m s = 2 ^ i \<and> capacity_m s' = 2 ^ j"
proof -
  from w obtain i where i: "i \<le> 31" "capacity_m s = 2 ^ i"
    unfolding wf_table_def table_inv_def by blast
  from w' obtain j where j: "j \<le> 31" "capacity_m s' = 2 ^ j"
    unfolding wf_table_def table_inv_def by blast
  from c obtain m where "capacity_m s' = capacity_m s * 2 ^ m" ..
  then have "(2::32 word) ^ j = 2 ^ i * 2 ^ m" using i(2) j(2) by simp
  from pow2_chain[OF i(1) j(1) this] have "i \<le> j" .
  with i j show ?thesis by blast
qed

text \<open>
  Claim C5, as stated, with the hop size 32: the set constructed for the initial size 1
  has the capacity 1, below the hop size, and keeps it through an insert; the set
  constructed for the initial size 0 has the capacity 0.
\<close>

theorem capacity_below_hop_size_counterexample:
  "capacity_m (Set_new 1 :: (32 word, 32) hop_base) = 1 \<and>
   unat (capacity_m (Set_new 1 :: (32 word, 32) hop_base)) < HopSize TYPE(32) \<and>
   map_option (\<lambda>(r, s'). capacity_m s')
     (Set_insert 1 ident_hash (Set_new 1 :: (32 word, 32) hop_base) 5) = Some 1 \<and>
   capacity_m (Set_new 0 :: (32 word, 32) hop_base) = 0"
proof -
  have a: "capacity_m (Set_new 1 :: (32 word, 32) hop_base) = 1"
    by (simp add: Set_new_def Set_init_internal_def npot32_small)
  have b: "HopSize TYPE(32) = 32" by (simp add: HopSize_def)
  have c: "map_option (\<lambda>(r, s'). capacity_m s')
     (Set_insert 1 ident_hash (Set_new 1 :: (32 word, 32) hop_base) 5) = Some 1"
    by code_simp
  have d: "capacity_m (Set_new 0 :: (32 word, 32) hop_base) = 0"
    by (simp add: Set_new_def Set_init_internal_def npot32_small)
  show ?thesis using a b c d by (intro conjI) simp_all
qed

text \<open>
  Claim C5, amended.  Constructed for an initial size \<open>n\<close> from 1 to \<open>2 ^ 31\<close>, a set or
  a map has a capacity that is a power of two and at least \<open>n\<close> (so at least the hop
  size when \<open>n\<close> is, as with the default initial size).  An insert that returns, on a
  well-formed set or map, leaves a capacity that is a power of two and at least the
  capacity before.
\<close>

theorem capacity_power_of_two:
  fixes s :: "('k::zero, 'h::len) hop_base" and d :: "('k, 'v::zero, 'h) dict"
  shows
  "(1 \<le> unat n \<and> unat n \<le> 2 ^ 31 \<longrightarrow>
      (\<exists>j\<le>31. capacity_m (Set_new n :: ('k, 'h) hop_base) = 2 ^ j \<and>
                capacity_m (Dict_new n :: ('k, 'v, 'h) dict) = 2 ^ j \<and> unat n \<le> 2 ^ j)) \<and>
   (wf_table H s \<and> Set_insert fuel H s key = Some (r, s') \<longrightarrow>
      (\<exists>i j. i \<le> j \<and> j \<le> 31 \<and> capacity_m s = 2 ^ i \<and> capacity_m s' = 2 ^ j)) \<and>
   (wf_table H d \<and> Dict_insert fuel' H d key' val = Some (pos, d') \<longrightarrow>
      (\<exists>i j. i \<le> j \<and> j \<le> 31 \<and> capacity_m d = 2 ^ i \<and> capacity_m d' = 2 ^ j))"
proof (intro conjI; rule impI)
  assume "1 \<le> unat n \<and> unat n \<le> 2 ^ 31"
  then have n: "1 \<le> unat n" "unat n \<le> 2 ^ 31" by simp_all
  from npot32_spec[OF n] obtain j where j: "j \<le> 31" "npot32 n = 2 ^ j" "unat n \<le> 2 ^ j"
    by blast
  have "capacity_m (Set_new n :: ('k, 'h) hop_base) = 2 ^ j"
    "capacity_m (Dict_new n :: ('k, 'v, 'h) dict) = 2 ^ j"
    using j(2) by (simp_all add: Set_new_def Set_init_internal_def Dict_new_def
        Dict_init_internal_def Let_def)
  with j(1,3)
  show "\<exists>j\<le>31. capacity_m (Set_new n :: ('k, 'h) hop_base) = 2 ^ j \<and>
                capacity_m (Dict_new n :: ('k, 'v, 'h) dict) = 2 ^ j \<and> unat n \<le> 2 ^ j"
    by blast
next
  assume a: "wf_table H s \<and> Set_insert fuel H s key = Some (r, s')"
  then have w: "wf_table H s" and i: "Set_insert fuel H s key = Some (r, s')" by simp_all
  note x = Set_insert_wf[OF w i]
  show "\<exists>i j. i \<le> j \<and> j \<le> 31 \<and> capacity_m s = 2 ^ i \<and> capacity_m s' = 2 ^ j"
    by (rule wf_insert_capacity[OF w x(1) x(4)])
next
  assume a: "wf_table H d \<and> Dict_insert fuel' H d key' val = Some (pos, d')"
  then have w: "wf_table H d" and i: "Dict_insert fuel' H d key' val = Some (pos, d')"
    by simp_all
  note x = Dict_insert_wf[OF w i]
  show "\<exists>i j. i \<le> j \<and> j \<le> 31 \<and> capacity_m d = 2 ^ i \<and> capacity_m d' = 2 ^ j"
    by (rule wf_insert_capacity[OF w x(1) x(3)])
qed

theorem capacity_power_of_two_witness:
  "1 \<le> unat (5 :: 32 word) \<and> unat (5 :: 32 word) \<le> 2 ^ 31 \<and>
   wf_table ident_hash set_7 \<and> Set_insert 1 ident_hash set_7 8 = Some (True, set_7_8) \<and>
   wf_table ident_hash dict_7 \<and> Dict_insert 2 ident_hash dict_7 56 17 = Some (11, dict_7_56) \<and>
   (\<exists>j\<le>31. capacity_m (Set_new 5 :: (32 word, 8) hop_base) = 2 ^ j \<and>
             capacity_m (Dict_new 5 :: (32 word, 32 word, 8) dict) = 2 ^ j \<and>
             unat (5 :: 32 word) \<le> 2 ^ j) \<and>
   (\<exists>i j. i \<le> j \<and> j \<le> 31 \<and> capacity_m set_7 = 2 ^ i \<and> capacity_m set_7_8 = 2 ^ j) \<and>
   (\<exists>i j. i \<le> j \<and> j \<le> 31 \<and> capacity_m dict_7 = 2 ^ i \<and> capacity_m dict_7_56 = 2 ^ j)"
proof -
  have n: "1 \<le> unat (5 :: 32 word) \<and> unat (5 :: 32 word) \<le> 2 ^ 31" by simp
  note t = capacity_power_of_two[where n = 5 and H = ident_hash and s = set_7 and fuel = 1
      and key = 8 and r = True and s' = set_7_8 and d = dict_7 and fuel' = 2 and key' = 56
      and val = 17 and pos = 11 and d' = dict_7_56]
  note a = t[THEN conjunct1, rule_format, OF n]
  note b = t[THEN conjunct2, THEN conjunct1, rule_format, OF conjI[OF set_7_wf set_7_8_reached]]
  note c = t[THEN conjunct2, THEN conjunct2, rule_format,
      OF conjI[OF dict_7_wf dict_7_56_reached]]
  show ?thesis
    using n set_7_wf set_7_8_reached dict_7_wf dict_7_56_reached a b c
    by (intro conjI) simp_all
qed

section \<open>Set algebra\<close>

lemma Set_clone_wf:
  fixes s :: "('k, 'h::len) hop_base"
  assumes "wf_table H s"
  shows "Set_clone s = s"
proof -
  note p = table_inv_props[OF assms[unfolded wf_table_def]]
  note d = slots_invD[OF p(4)]
  show ?thesis unfolding Set_clone_def using d(1,2) by simp
qed

lemma wf_elements_has:
  assumes "wf_table H s"
  shows "elements s {} = {k. has H s k}"
  using has_iff_elements[OF assms[unfolded wf_table_def]] by auto

lemma visited_elements:
  "{keys_m s ! i | i. i \<in> set [0 ..< end_index s] \<and> occupied (hops_m s) i} = elements s {}"
  unfolding elements_def live_def by auto

subsection \<open>Union\<close>

lemma Set_or_assign_loop_wf:
  fixes s :: "('k::zero, 'h::len) hop_base"
  assumes "wf_table H s" "Set_or_assign_loop n H other iters s = Some s'"
  shows "wf_table H s' \<and>
     elements s' {} =
       elements s {} \<union> {keys_m other ! i | i. i \<in> set iters \<and> occupied (hops_m other) i}"
  using assms
proof (induction iters arbitrary: s)
  case Nil
  then show ?case by simp
next
  case (Cons i iters)
  show ?case
  proof (cases "occupied (hops_m other) i")
    case False
    then have "Set_or_assign_loop n H other iters s = Some s'" using Cons.prems(2) by simp
    from Cons.IH[OF Cons.prems(1) this] False show ?thesis by auto
  next
    case True
    then obtain r s1 where s1: "Set_insert n H s (keys_m other ! i) = Some (r, s1)"
      "Set_or_assign_loop n H other iters s1 = Some s'"
      using Cons.prems(2) by (cases "Set_insert n H s (keys_m other ! i)") auto
    note x = Set_insert_wf[OF Cons.prems(1) s1(1)]
    from Cons.IH[OF x(1) s1(2)] have
      a: "wf_table H s'" and
      b: "elements s' {} = elements s1 {} \<union>
         {keys_m other ! i | i. i \<in> set iters \<and> occupied (hops_m other) i}" by simp_all
    have "elements s' {} = elements s {} \<union>
         {keys_m other ! j | j. j \<in> set (i # iters) \<and> occupied (hops_m other) j}"
      unfolding b x(2) using True by auto
    with a show ?thesis by simp
  qed
qed

lemma Set_or_assign_wf:
  fixes s :: "('k::zero, 'h::len) hop_base"
  assumes "wf_table H s" "Set_or_assign n H s other = Some s'"
  shows "wf_table H s'" "elements s' {} = elements s {} \<union> elements other {}"
  using Set_or_assign_loop_wf[OF assms(1) assms(2)[unfolded Set_or_assign_def]]
  unfolding visited_elements by simp_all

lemma Set_or_wf:
  fixes A B :: "('k::zero, 'h::len) hop_base"
  assumes "wf_table H A" "wf_table H B" "Set_or n H A B = Some C"
  shows "wf_table H C" "elements C {} = elements A {} \<union> elements B {}"
proof -
  have "wf_table H C \<and> elements C {} = elements A {} \<union> elements B {}"
  proof (cases "size_m B > size_m A")
    case True
    then have "Set_or_assign n H B A = Some C"
      using assms(3) unfolding Set_or_def Set_clone_wf[OF assms(2)] by simp
    from Set_or_assign_wf[OF assms(2) this] show ?thesis by auto
  next
    case False
    then have "Set_or_assign n H A B = Some C"
      using assms(3) unfolding Set_or_def Set_clone_wf[OF assms(1)] by simp
    from Set_or_assign_wf[OF assms(1) this] show ?thesis by auto
  qed
  then show "wf_table H C" "elements C {} = elements A {} \<union> elements B {}" by simp_all
qed

subsection \<open>Difference\<close>

lemma Set_minus_assign_loop_wf:
  fixes s :: "('k, 'h::len) hop_base"
  assumes "wf_table H s"
  shows "wf_table H (Set_minus_assign_loop H other iters s) \<and>
     elements (Set_minus_assign_loop H other iters s) {} =
       elements s {} - {keys_m other ! i | i. i \<in> set iters \<and> occupied (hops_m other) i}"
  using assms
proof (induction iters arbitrary: s)
  case Nil
  then show ?case by simp
next
  case (Cons i iters)
  show ?case
  proof (cases "occupied (hops_m other) i")
    case False
    then show ?thesis using Cons.IH[OF Cons.prems] by auto
  next
    case True
    let ?e = "keys_m other ! i"
    define s1 where "s1 = (if has H s ?e then snd (Set_remove H s ?e) else s)"
    have step: "Set_minus_assign_loop H other (i # iters) s =
        Set_minus_assign_loop H other iters s1"
      using True by (simp add: s1_def Let_def)
    have w1: "wf_table H s1"
      unfolding s1_def using Set_remove_wf(1)[OF Cons.prems] Cons.prems by simp
    have e1: "elements s1 {} = elements s {} - {?e}"
      unfolding s1_def using Set_remove_wf(2)[OF Cons.prems, of ?e]
        has_iff_elements[OF Cons.prems[unfolded wf_table_def], of ?e] by auto
    from Cons.IH[OF w1] have
      a: "wf_table H (Set_minus_assign_loop H other iters s1)" and
      b: "elements (Set_minus_assign_loop H other iters s1) {} = elements s1 {} -
         {keys_m other ! i | i. i \<in> set iters \<and> occupied (hops_m other) i}" by simp_all
    have "elements (Set_minus_assign_loop H other iters s1) {} = elements s {} -
         {keys_m other ! j | j. j \<in> set (i # iters) \<and> occupied (hops_m other) j}"
      unfolding b e1 using True by auto
    with a show ?thesis unfolding step by simp
  qed
qed

lemma Set_minus_wf:
  fixes A B :: "('k, 'h::len) hop_base"
  assumes "wf_table H A"
  shows "wf_table H (Set_minus H A B)" "elements (Set_minus H A B) {} = elements A {} - elements B {}"
  using Set_minus_assign_loop_wf[OF assms, of B "[0 ..< end_index B]"]
  unfolding Set_minus_def Set_minus_assign_def Set_clone_wf[OF assms] visited_elements
  by simp_all

subsection \<open>Symmetric difference\<close>

lemma Set_xor_assign_loop_wf:
  fixes s :: "('k::zero, 'h::len) hop_base"
  assumes "wf_table H s" "wf_table H other" "distinct iters" "\<forall>i\<in>set iters. i < end_index other"
    "Set_xor_assign_loop n H other iters s = Some s'"
  shows "wf_table H s' \<and>
     (\<forall>k. k \<in> elements s' {} \<longleftrightarrow>
        (k \<in> elements s {}) \<noteq>
        (k \<in> {keys_m other ! i | i. i \<in> set iters \<and> occupied (hops_m other) i}))"
  using assms(1,3,4,5)
proof (induction iters arbitrary: s)
  case Nil
  then show ?case by simp
next
  case (Cons i iters)
  have di: "distinct iters" "i \<notin> set iters" "\<forall>j\<in>set iters. j < end_index other"
    "i < end_index other"
    using Cons.prems(2,3) by simp_all
  show ?case
  proof (cases "occupied (hops_m other) i")
    case False
    then have "Set_xor_assign_loop n H other iters s = Some s'" using Cons.prems(4) by simp
    from Cons.IH[OF Cons.prems(1) di(1,3) this] False show ?thesis by auto
  next
    case True
    let ?e = "keys_m other ! i"
    let ?V = "{keys_m other ! j | j. j \<in> set iters \<and> occupied (hops_m other) j}"
    note po = table_inv_props[OF assms(2)[unfolded wf_table_def]]
    note dd = slots_invD[OF po(4)]
    have fresh: "?e \<notin> ?V"
    proof
      assume "?e \<in> ?V"
      then obtain j where j: "j \<in> set iters" "occupied (hops_m other) j"
        "keys_m other ! j = ?e" by auto
      then have "j = i" using dd(5)[of j i] di(3,4) True by auto
      with j(1) di(2) show False by simp
    qed
    have hs: "has H s ?e \<longleftrightarrow> ?e \<in> elements s {}"
      by (rule has_iff_elements[OF Cons.prems(1)[unfolded wf_table_def]])
    obtain s1 where s1: "wf_table H s1"
      "\<forall>k. k \<in> elements s1 {} \<longleftrightarrow> ((k \<in> elements s {}) \<noteq> (k = ?e))"
      "Set_xor_assign_loop n H other iters s1 = Some s'"
    proof (cases "has H s ?e")
      case h: True
      let ?s1 = "snd (Set_remove H s ?e)"
      have "Set_xor_assign_loop n H other iters ?s1 = Some s'"
        using Cons.prems(4) True h by (simp add: Let_def)
      moreover have "wf_table H ?s1" by (rule Set_remove_wf(1)[OF Cons.prems(1)])
      moreover have "\<forall>k. k \<in> elements ?s1 {} \<longleftrightarrow> ((k \<in> elements s {}) \<noteq> (k = ?e))"
        unfolding Set_remove_wf(2)[OF Cons.prems(1)] using h hs by auto
      ultimately show ?thesis using that by blast
    next
      case h: False
      then obtain r s1 where i1: "Set_insert n H s ?e = Some (r, s1)"
        "Set_xor_assign_loop n H other iters s1 = Some s'"
        using Cons.prems(4) True by (cases "Set_insert n H s ?e") (auto simp: Let_def)
      note x = Set_insert_wf[OF Cons.prems(1) i1(1)]
      have "\<forall>k. k \<in> elements s1 {} \<longleftrightarrow> ((k \<in> elements s {}) \<noteq> (k = ?e))"
        unfolding x(2) using h hs by auto
      with x(1) i1(2) show ?thesis using that by blast
    qed
    from Cons.IH[OF s1(1) di(1,3) s1(3)] have
      a: "wf_table H s'" and
      b: "\<forall>k. k \<in> elements s' {} \<longleftrightarrow> ((k \<in> elements s1 {}) \<noteq> (k \<in> ?V))" by simp_all
    have v: "{keys_m other ! j | j. j \<in> set (i # iters) \<and> occupied (hops_m other) j} =
        insert ?e ?V" using True by auto
    have "\<forall>k. k \<in> elements s' {} \<longleftrightarrow> ((k \<in> elements s {}) \<noteq> (k \<in> insert ?e ?V))"
    proof
      fix k
      note bk = b[rule_format, of k] and sk = s1(2)[rule_format, of k]
      show "k \<in> elements s' {} \<longleftrightarrow> ((k \<in> elements s {}) \<noteq> (k \<in> insert ?e ?V))"
      proof (cases "k = ?e")
        case True
        with fresh have "k \<notin> ?V" by simp
        with bk sk True show ?thesis by simp
      next
        case False
        with bk sk show ?thesis by simp
      qed
    qed
    with a show ?thesis unfolding v by (rule conjI)
  qed
qed

lemma Set_xor_wf:
  fixes A B :: "('k::zero, 'h::len) hop_base"
  assumes "wf_table H A" "wf_table H B" "Set_xor n H A B = Some X"
  shows "wf_table H X" "\<And>k. k \<in> elements X {} \<longleftrightarrow> (k \<in> elements A {}) \<noteq> (k \<in> elements B {})"
proof -
  have l: "Set_xor_assign_loop n H B [0 ..< end_index B] A = Some X"
    using assms(3) unfolding Set_xor_def Set_xor_assign_def Set_clone_wf[OF assms(1)] .
  have "wf_table H X \<and>
     (\<forall>k. k \<in> elements X {} \<longleftrightarrow>
        (k \<in> elements A {}) \<noteq>
        (k \<in> {keys_m B ! i | i. i \<in> set [0 ..< end_index B] \<and> occupied (hops_m B) i}))"
    by (rule Set_xor_assign_loop_wf[OF assms(1,2) _ _ l]) simp_all
  then show "wf_table H X"
    "\<And>k. k \<in> elements X {} \<longleftrightarrow> (k \<in> elements A {}) \<noteq> (k \<in> elements B {})"
    unfolding visited_elements by simp_all
qed

subsection \<open>Intersection\<close>

lemma Set_and_assign_loop_wf:
  fixes s :: "('k, 'h::len) hop_base"
  assumes "wf_table H s" "\<forall>i\<in>set iters. i < end_index s"
  shows "wf_table H (Set_and_assign_loop H other iters s) \<and>
     elements (Set_and_assign_loop H other iters s) {} =
       elements s {} -
       {keys_m s ! i | i. i \<in> set iters \<and> occupied (hops_m s) i \<and> \<not> has H other (keys_m s ! i)}"
  using assms
proof (induction iters arbitrary: s)
  case Nil
  then show ?case by simp
next
  case (Cons i iters)
  have bd: "i < end_index s" "\<forall>j\<in>set iters. j < end_index s" using Cons.prems(2) by simp_all
  let ?e = "keys_m s ! i"
  show ?case
  proof (cases "occupied (hops_m s) i \<and> \<not> has H other ?e")
    case False
    then have "Set_and_assign_loop H other (i # iters) s = Set_and_assign_loop H other iters s"
      by (auto simp: Let_def)
    moreover have "{keys_m s ! j | j. j \<in> set (i # iters) \<and> occupied (hops_m s) j \<and>
          \<not> has H other (keys_m s ! j)} =
        {keys_m s ! j | j. j \<in> set iters \<and> occupied (hops_m s) j \<and>
          \<not> has H other (keys_m s ! j)}"
      using False by auto
    ultimately show ?thesis using Cons.IH[OF Cons.prems(1) bd(2)] by simp
  next
    case True
    define s1 where "s1 = snd (Set_remove H s ?e)"
    have step: "Set_and_assign_loop H other (i # iters) s =
        Set_and_assign_loop H other iters s1"
      using True by (simp add: s1_def Let_def)
    note r = Set_remove_wf[OF Cons.prems(1), of ?e, folded s1_def]
    have fi: "find_internal s (get_bucket_index H s ?e) ?e = i"
      using wf_slot_near_home[OF Cons.prems(1) bd(1)] True by simp
    have e1: "end_index s1 = end_index s" using r(5) by (simp add: end_index_def)
    have oc: "occupied (hops_m s1) j \<longleftrightarrow> occupied (hops_m s) j \<and> j \<noteq> i"
      if "j < end_index s" for j
      using r(6) that unfolding fi live_def e1 by auto
    have bd1: "\<forall>j\<in>set iters. j < end_index s1" using bd(2) e1 by simp
    from Cons.IH[OF r(1) bd1] have
      a: "wf_table H (Set_and_assign_loop H other iters s1)" and
      b: "elements (Set_and_assign_loop H other iters s1) {} = elements s1 {} -
        {keys_m s1 ! j | j. j \<in> set iters \<and> occupied (hops_m s1) j \<and>
          \<not> has H other (keys_m s1 ! j)}" by simp_all
    have "{keys_m s1 ! j | j. j \<in> set iters \<and> occupied (hops_m s1) j \<and>
          \<not> has H other (keys_m s1 ! j)} =
        {keys_m s ! j | j. j \<in> set iters \<and> j \<noteq> i \<and> occupied (hops_m s) j \<and>
          \<not> has H other (keys_m s ! j)}"
      unfolding r(4) using oc bd(2) by auto
    then have "elements (Set_and_assign_loop H other iters s1) {} = elements s {} -
        {keys_m s ! j | j. j \<in> set (i # iters) \<and> occupied (hops_m s) j \<and>
          \<not> has H other (keys_m s ! j)}"
      unfolding b r(2) using True by auto
    with a show ?thesis unfolding step by simp
  qed
qed

lemma Set_and_wf:
  fixes A B :: "('k, 'h::len) hop_base"
  assumes "wf_table H A" "wf_table H B"
  shows "wf_table H (Set_and H A B)"
    "elements (Set_and H A B) {} = elements A {} \<inter> elements B {}"
proof -
  have "wf_table H (Set_and_assign_loop H B [0 ..< end_index A] A) \<and>
     elements (Set_and_assign_loop H B [0 ..< end_index A] A) {} =
       elements A {} -
       {keys_m A ! i | i. i \<in> set [0 ..< end_index A] \<and> occupied (hops_m A) i \<and>
          \<not> has H B (keys_m A ! i)}"
    by (rule Set_and_assign_loop_wf[OF assms(1)]) simp
  moreover have "{keys_m A ! i | i. i \<in> set [0 ..< end_index A] \<and> occupied (hops_m A) i \<and>
          \<not> has H B (keys_m A ! i)} = {k \<in> elements A {}. k \<notin> elements B {}}"
    unfolding wf_elements_has[OF assms(2)] unfolding elements_def live_def by auto
  ultimately show "wf_table H (Set_and H A B)"
    "elements (Set_and H A B) {} = elements A {} \<inter> elements B {}"
    unfolding Set_and_def Set_and_assign_def Set_clone_wf[OF assms(1)] by auto
qed

subsection \<open>\<^verbatim>\<open>intersects\<close> and \<^verbatim>\<open>empty\<close>\<close>

lemma Set_intersects_loop_iff:
  "Set_intersects_loop H walked probed iters \<longleftrightarrow>
     (\<exists>i\<in>set iters. occupied (hops_m walked) i \<and> has H probed (keys_m walked ! i))"
  by (induction iters) auto

lemma Set_intersects_wf:
  fixes A B :: "('k, 'h::len) hop_base"
  assumes "wf_table H A" "wf_table H B"
  shows "Set_intersects H A B \<longleftrightarrow> elements A {} \<inter> elements B {} \<noteq> {}"
proof -
  have *: "(\<exists>i\<in>set [0 ..< end_index s]. occupied (hops_m s) i \<and> has H t (keys_m s ! i)) \<longleftrightarrow>
      elements s {} \<inter> elements t {} \<noteq> {}"
    if "wf_table H t" for s t :: "('k, 'h) hop_base"
  proof -
    have "(\<exists>i\<in>set [0 ..< end_index s]. occupied (hops_m s) i \<and> has H t (keys_m s ! i)) \<longleftrightarrow>
        (\<exists>k. k \<in> elements s {} \<and> has H t k)"
      unfolding visited_elements[of s, symmetric] by fastforce
    also have "\<dots> \<longleftrightarrow> (\<exists>k. k \<in> elements s {} \<and> k \<in> elements t {})"
      unfolding wf_elements_has[OF that] by simp
    also have "\<dots> \<longleftrightarrow> elements s {} \<inter> elements t {} \<noteq> {}" by blast
    finally show ?thesis .
  qed
  have a: "Set_intersects_loop H A B [0 ..< end_index A] \<longleftrightarrow>
      elements A {} \<inter> elements B {} \<noteq> {}"
    unfolding Set_intersects_loop_iff by (rule *[OF assms(2)])
  have b: "Set_intersects_loop H B A [0 ..< end_index B] \<longleftrightarrow>
      elements B {} \<inter> elements A {} \<noteq> {}"
    unfolding Set_intersects_loop_iff by (rule *[OF assms(1)])
  have c: "elements B {} \<inter> elements A {} = elements A {} \<inter> elements B {}" by (rule Int_commute)
  show ?thesis
  proof (cases "size_m B > size_m A")
    case True
    then show ?thesis unfolding Set_intersects_def using a by simp
  next
    case False
    then show ?thesis unfolding Set_intersects_def using b c by simp
  qed
qed

lemma wf_empty_iff:
  assumes "wf_table H s"
  shows "empty s \<longleftrightarrow> elements s {} = {}"
proof -
  note p = table_inv_props[OF assms[unfolded wf_table_def]]
  have "size_m s = 0 \<longleftrightarrow> card (live s) = 0"
    unfolding p(5)[symmetric] by (simp add: unsigned_eq_0_iff)
  also have "\<dots> \<longleftrightarrow> live s = {}" using live_finite[of s] by simp
  also have "\<dots> \<longleftrightarrow> elements s {} = {}" unfolding elements_image by simp
  finally show ?thesis unfolding empty_def .
qed

section \<open>The set operators\<close>

lemma wf_size_elements:
  assumes "wf_table H s"
  shows "unat (size_m s) = card (elements s {})"
proof -
  note p = table_inv_props[OF assms[unfolded wf_table_def]]
  note d = slots_invD[OF p(4)]
  have "inj_on (\<lambda>i. keys_m s ! i) (live s)"
  proof (rule inj_onI)
    fix i j assume "i \<in> live s" "j \<in> live s" "keys_m s ! i = keys_m s ! j"
    then show "i = j" using d(5)[of i j] by (simp add: live_def)
  qed
  then have "card (elements s {}) = card (live s)"
    unfolding elements_image by (simp add: card_image)
  with p(5) show ?thesis by simp
qed

lemma set_a_run:
  "Set_run 1 ident_hash [Insert 0, Insert 8, Insert 16, Insert 24, Insert 1] Set_default =
     Some set_a"
  by code_simp

lemma set_b_run:
  "Set_run 1 ident_hash [Insert 1, Insert 2, Insert 32, Insert 40, Insert 48, Insert 56]
     Set_default = Some set_b"
  by code_simp

lemma set_a_wf: "wf_table ident_hash set_a"
  using Set_run_wf[OF Set_default_wf(1)[OF valid_hop_size_8] set_a_run] by simp

lemma set_b_wf: "wf_table ident_hash set_b"
  using Set_run_wf[OF Set_default_wf(1)[OF valid_hop_size_8] set_b_run] by simp

lemma set_a_or_b_reached: "Set_or 2 ident_hash set_a set_b = Some set_a_or_b"
  by code_simp

lemma set_a_xor_b_reached: "Set_xor 2 ident_hash set_a set_b = Some set_a_xor_b"
  by code_simp

lemma set_differences_reached:
  "Set_or 2 ident_hash (Set_minus ident_hash set_a set_b) (Set_minus ident_hash set_b set_a) =
     Some set_differences"
  by code_simp

text \<open>
  Claim C3, as stated, fails for \<^verbatim>\<open>A | B\<close> and \<^verbatim>\<open>A ^ B\<close> on two sets of hop size 8
  under the hash function that returns the key: \<open>A\<close> holds the four keys \<open>i * 2 ^ 32\<close>
  for \<open>i\<close> from 0 to 3, \<open>B\<close> the four for \<open>i\<close> from 4 to 7, both are reached by inserts
  into the default set, and neither operator returns at any call depth: the result
  would hold eight keys of one bucket, the inserts grow the copy again and again, and
  no set is left that could contain the union.
\<close>

theorem union_of_colliding_sets_counterexample:
  "Set_run 1 word_hash (take 4 colliding_inserts) Set_default = Some set_colliding_a \<and>
   Set_run 1 word_hash (drop 4 colliding_inserts) Set_default = Some set_colliding_b \<and>
   wf_table word_hash set_colliding_a \<and> wf_table word_hash set_colliding_b \<and>
   (\<forall>n. Set_or n word_hash set_colliding_a set_colliding_b = None) \<and>
   (\<forall>n. Set_xor n word_hash set_colliding_a set_colliding_b = None)"
proof (intro conjI allI)
  show "Set_run 1 word_hash (take 4 colliding_inserts) Set_default = Some set_colliding_a"
    by (rule set_colliding_a_run)
  show "Set_run 1 word_hash (drop 4 colliding_inserts) Set_default = Some set_colliding_b"
    by (rule set_colliding_b_run)
  show "wf_table word_hash set_colliding_a" by (rule set_colliding_a_wf(1))
  show "wf_table word_hash set_colliding_b" by (rule set_colliding_b_wf(1))
  fix n
  show "Set_or n word_hash set_colliding_a set_colliding_b = None"
  proof (rule ccontr)
    assume "Set_or n word_hash set_colliding_a set_colliding_b \<noteq> None"
    then obtain C where r: "Set_or n word_hash set_colliding_a set_colliding_b = Some C"
      by auto
    note x = Set_or_wf[OF set_colliding_a_wf(1) set_colliding_b_wf(1) r]
    have "elements C {} = set colliding_keys"
      unfolding x(2) set_colliding_a_wf(2) set_colliding_b_wf(2) by (rule colliding_halves(1))
    then have "set colliding_keys \<subseteq> elements C {}" by simp
    with colliding_keys_not_held[OF x(1)] show False ..
  qed
  show "Set_xor n word_hash set_colliding_a set_colliding_b = None"
  proof (rule ccontr)
    assume "Set_xor n word_hash set_colliding_a set_colliding_b \<noteq> None"
    then obtain X where r: "Set_xor n word_hash set_colliding_a set_colliding_b = Some X"
      by auto
    note x = Set_xor_wf[OF set_colliding_a_wf(1) set_colliding_b_wf(1) r]
    have "set colliding_keys \<subseteq> elements X {}"
    proof
      fix k assume "k \<in> set colliding_keys"
      then have "(k \<in> set (take 4 colliding_keys)) \<noteq> (k \<in> set (drop 4 colliding_keys))"
        using colliding_halves by blast
      then show "k \<in> elements X {}"
        unfolding x(2) set_colliding_a_wf(2) set_colliding_b_wf(2) .
    qed
    with colliding_keys_not_held[OF x(1)] show False ..
  qed
qed

text \<open>
  Claim C3, amended.  For well-formed sets \<open>A\<close> and \<open>B\<close> over one hash function:
  \<^verbatim>\<open>A | B\<close>, when it returns, contains exactly the keys in \<open>A\<close> or in \<open>B\<close>; \<^verbatim>\<open>A & B\<close>
  contains exactly the keys in both; \<^verbatim>\<open>A - B\<close> contains exactly the keys of \<open>A\<close> absent
  from \<open>B\<close>; \<^verbatim>\<open>A ^ B\<close> and \<^verbatim>\<open>(A - B) | (B - A)\<close>, when both return, contain the same
  keys and have the same size; and \<^verbatim>\<open>A.intersects(B)\<close> is true exactly when \<^verbatim>\<open>A & B\<close>
  is not empty.  Every result is a well-formed set again.
\<close>

theorem set_algebra:
  fixes A B :: "('k::zero, 'h::len) hop_base"
  shows
  "(wf_table H A \<and> wf_table H B \<and> Set_or n H A B = Some C \<longrightarrow>
      wf_table H C \<and> (\<forall>k. has H C k \<longleftrightarrow> has H A k \<or> has H B k)) \<and>
   (wf_table H A \<and> wf_table H B \<longrightarrow>
      wf_table H (Set_and H A B) \<and>
      (\<forall>k. has H (Set_and H A B) k \<longleftrightarrow> has H A k \<and> has H B k) \<and>
      wf_table H (Set_minus H A B) \<and>
      (\<forall>k. has H (Set_minus H A B) k \<longleftrightarrow> has H A k \<and> \<not> has H B k) \<and>
      (Set_intersects H A B \<longleftrightarrow> \<not> empty (Set_and H A B))) \<and>
   (wf_table H A \<and> wf_table H B \<and> Set_xor n' H A B = Some X \<and>
    Set_or n'' H (Set_minus H A B) (Set_minus H B A) = Some U \<longrightarrow>
      wf_table H X \<and> wf_table H U \<and> (\<forall>k. has H X k \<longleftrightarrow> has H U k) \<and> size_m X = size_m U)"
proof (intro conjI; rule impI)
  assume "wf_table H A \<and> wf_table H B \<and> Set_or n H A B = Some C"
  then have w: "wf_table H A" "wf_table H B" and r: "Set_or n H A B = Some C" by simp_all
  note x = Set_or_wf[OF w r]
  have "\<forall>k. has H C k \<longleftrightarrow> has H A k \<or> has H B k"
  proof
    fix k
    have "k \<in> elements C {} \<longleftrightarrow> k \<in> elements A {} \<or> k \<in> elements B {}"
      unfolding x(2) by simp
    then show "has H C k \<longleftrightarrow> has H A k \<or> has H B k"
      unfolding wf_elements_has[OF x(1)] wf_elements_has[OF w(1)] wf_elements_has[OF w(2)]
      by simp
  qed
  with x(1) show "wf_table H C \<and> (\<forall>k. has H C k \<longleftrightarrow> has H A k \<or> has H B k)" ..
next
  assume "wf_table H A \<and> wf_table H B"
  then have w: "wf_table H A" "wf_table H B" by simp_all
  note a = Set_and_wf[OF w]
  note m = Set_minus_wf[OF w(1), of B]
  have 1: "\<forall>k. has H (Set_and H A B) k \<longleftrightarrow> has H A k \<and> has H B k"
  proof
    fix k
    have "k \<in> elements (Set_and H A B) {} \<longleftrightarrow> k \<in> elements A {} \<and> k \<in> elements B {}"
      unfolding a(2) by simp
    then show "has H (Set_and H A B) k \<longleftrightarrow> has H A k \<and> has H B k"
      unfolding wf_elements_has[OF a(1)] wf_elements_has[OF w(1)] wf_elements_has[OF w(2)]
      by simp
  qed
  have 2: "\<forall>k. has H (Set_minus H A B) k \<longleftrightarrow> has H A k \<and> \<not> has H B k"
  proof
    fix k
    have "k \<in> elements (Set_minus H A B) {} \<longleftrightarrow> k \<in> elements A {} \<and> k \<notin> elements B {}"
      unfolding m(2) by simp
    then show "has H (Set_minus H A B) k \<longleftrightarrow> has H A k \<and> \<not> has H B k"
      unfolding wf_elements_has[OF m(1)] wf_elements_has[OF w(1)] wf_elements_has[OF w(2)]
      by simp
  qed
  have 3: "Set_intersects H A B \<longleftrightarrow> \<not> empty (Set_and H A B)"
    unfolding Set_intersects_wf[OF w] wf_empty_iff[OF a(1)] a(2) by simp
  from a(1) 1 m(1) 2 3
  show "wf_table H (Set_and H A B) \<and>
      (\<forall>k. has H (Set_and H A B) k \<longleftrightarrow> has H A k \<and> has H B k) \<and>
      wf_table H (Set_minus H A B) \<and>
      (\<forall>k. has H (Set_minus H A B) k \<longleftrightarrow> has H A k \<and> \<not> has H B k) \<and>
      (Set_intersects H A B \<longleftrightarrow> \<not> empty (Set_and H A B))"
    by (intro conjI)
next
  assume "wf_table H A \<and> wf_table H B \<and> Set_xor n' H A B = Some X \<and>
    Set_or n'' H (Set_minus H A B) (Set_minus H B A) = Some U"
  then have w: "wf_table H A" "wf_table H B" and x: "Set_xor n' H A B = Some X"
    and u: "Set_or n'' H (Set_minus H A B) (Set_minus H B A) = Some U" by simp_all
  note xw = Set_xor_wf[OF w x]
  note ab = Set_minus_wf[OF w(1), of B]
  note ba = Set_minus_wf[OF w(2), of A]
  note uw = Set_or_wf[OF ab(1) ba(1) u]
  have e: "elements X {} = elements U {}"
  proof (rule set_eqI)
    fix k
    show "k \<in> elements X {} \<longleftrightarrow> k \<in> elements U {}"
      unfolding xw(2) uw(2) ab(2) ba(2) by blast
  qed
  have "\<forall>k. has H X k \<longleftrightarrow> has H U k"
    using e unfolding wf_elements_has[OF xw(1)] wf_elements_has[OF uw(1)] by blast
  moreover have "size_m X = size_m U"
  proof -
    have "unat (size_m X) = unat (size_m U)"
      unfolding wf_size_elements[OF xw(1)] wf_size_elements[OF uw(1)] e ..
    then show ?thesis by (simp only: word_unat_eq_iff)
  qed
  ultimately
  show "wf_table H X \<and> wf_table H U \<and> (\<forall>k. has H X k \<longleftrightarrow> has H U k) \<and> size_m X = size_m U"
    using xw(1) uw(1) by (intro conjI)
qed

theorem set_algebra_witness:
  "wf_table ident_hash set_a \<and> wf_table ident_hash set_b \<and>
   Set_or 2 ident_hash set_a set_b = Some set_a_or_b \<and>
   Set_xor 2 ident_hash set_a set_b = Some set_a_xor_b \<and>
   Set_or 2 ident_hash (Set_minus ident_hash set_a set_b) (Set_minus ident_hash set_b set_a) =
     Some set_differences \<and>
   (\<forall>k. has ident_hash set_a_or_b k \<longleftrightarrow> has ident_hash set_a k \<or> has ident_hash set_b k) \<and>
   (\<forall>k. has ident_hash (Set_and ident_hash set_a set_b) k \<longleftrightarrow>
        has ident_hash set_a k \<and> has ident_hash set_b k) \<and>
   (\<forall>k. has ident_hash (Set_minus ident_hash set_a set_b) k \<longleftrightarrow>
        has ident_hash set_a k \<and> \<not> has ident_hash set_b k) \<and>
   (Set_intersects ident_hash set_a set_b \<longleftrightarrow> \<not> empty (Set_and ident_hash set_a set_b)) \<and>
   (\<forall>k. has ident_hash set_a_xor_b k \<longleftrightarrow> has ident_hash set_differences k) \<and>
   size_m set_a_xor_b = size_m set_differences \<and>
   set_a_xor_b \<noteq> set_differences"
proof -
  note t = set_algebra[where H = ident_hash and A = set_a and B = set_b and n = 2
      and C = set_a_or_b and n' = 2 and X = set_a_xor_b and n'' = 2 and U = set_differences]
  note a = t[THEN conjunct1, rule_format,
      OF conjI[OF set_a_wf conjI[OF set_b_wf set_a_or_b_reached]]]
  note b = t[THEN conjunct2, THEN conjunct1, rule_format, OF conjI[OF set_a_wf set_b_wf]]
  note c = t[THEN conjunct2, THEN conjunct2, rule_format,
      OF conjI[OF set_a_wf conjI[OF set_b_wf
        conjI[OF set_a_xor_b_reached set_differences_reached]]]]
  have d: "set_a_xor_b \<noteq> set_differences"
    by (simp add: set_a_xor_b_def set_differences_def)
  show ?thesis
    using set_a_wf set_b_wf set_a_or_b_reached set_a_xor_b_reached set_differences_reached
      a b c d
    by (intro conjI) simp_all
qed

end
